theory Spec2Isabelle
  imports
    Complex_Main
    "HOL-Library.Char_ord"
    "HOL-Library.List_Lexorder"
    "HOL-Library.Sublist"
    "HOL-Library.Multiset"
begin


section \<open>Overview\<close>

text \<open>
  The sources hold three revisions of the customs data service. \<open>part_007\<close> keys the
  records by code, keeps a materialized cache and a flexsearch index, and cuts its
  results by limits; its functions keep their names here. The second half of
  \<open>lib/database.ts\<close> is the same service keyed by \<open>id\<close> and \<open>parentId\<close>; what it does
  differently is modelled under names of its own (\<open>findRootId\<close>,
  \<open>buildTreeFromIdList\<close>, \<open>normalizeSpread\<close>). The first half of \<open>lib/database.ts\<close>
  answers from the table, with a MiniSearch index and without limits; where a name is
  taken, its functions carry the suffix \<open>Mini\<close>.
\<close>

section \<open>Data model\<close>

text \<open>
  A field of a JSON object as JavaScript sees it: absent (\<open>undefined\<close>), \<open>null\<close>,
  a boolean, a (finite) number or a string.
\<close>

datatype jsval = JUndefined | JNull | JBool bool | JNum rat | JStr string

text \<open>
  \<open>CustomsRecord\<close> of \<open>part_007\<close> (the same interface opens \<open>lib/database.ts\<close>).
  Strings are compared as JavaScript compares them, unit by unit; optional runtime
  fields are \<open>None\<close> while unset.
\<close>

record CustomsRecord =
  code :: string
  description :: string
  percentage :: rat
  cefta :: rat
  msa :: rat
  trmtl :: rat
  tvsh :: rat
  excise :: rat
  validFrom :: jsval
  uomCode :: jsval
  rootCode :: "string option"
  highlightedDescription :: "string option"
  fileUrl :: jsval
  importMeasure :: jsval
  exportMeasure :: jsval

type_synonym CustomsFlatRow = CustomsRecord

text \<open>A row with the given code and description and nothing else of interest.\<close>

definition plainRow :: "string \<Rightarrow> string \<Rightarrow> CustomsRecord" where
  "plainRow c d =
     \<lparr>code = c, description = d, percentage = 0, cefta = 0, msa = 0, trmtl = 0,
      tvsh = 0, excise = 0, validFrom = JStr [], uomCode = JNull, rootCode = None,
      highlightedDescription = None, fileUrl = JNull, importMeasure = JNull,
      exportMeasure = JNull\<rparr>"

section \<open>Ordering and parent lookup\<close>

text \<open>\<open>sortChildren\<close> (\<open>compareRecords\<close> in \<open>lib/database.ts\<close>): code, then description.\<close>

definition sortChildren :: "CustomsRecord \<Rightarrow> CustomsRecord \<Rightarrow> int" where
  "sortChildren a b =
     (let ac = code a; bc = code b in
      if ac < bc then - 1
      else if ac > bc then 1
      else
        (let ad = description a; bd = description b in
         if ad < bd then - 1 else if ad > bd then 1 else 0))"

text \<open>
  \<open>Array.prototype.sort\<close> with a comparator: the sort is stable, so it is the
  insertion of every element before the first one it does not follow.
\<close>

fun insort_cmp :: "('a \<Rightarrow> 'a \<Rightarrow> int) \<Rightarrow> 'a \<Rightarrow> 'a list \<Rightarrow> 'a list" where
  "insort_cmp cmp x [] = [x]"
| "insort_cmp cmp x (y # ys) =
     (if cmp x y \<le> 0 then x # y # ys else y # insort_cmp cmp x ys)"

definition array_sort :: "('a \<Rightarrow> 'a \<Rightarrow> int) \<Rightarrow> 'a list \<Rightarrow> 'a list" where
  "array_sort cmp xs = foldr (insort_cmp cmp) xs []"

text \<open>
  \<open>findParentCode\<close>: the loop runs \<open>i\<close> from \<open>code.length - 1\<close> down to \<open>1\<close> and
  returns the first prefix \<open>code.slice(0, i)\<close> found in the set.
\<close>

fun findParentCode_from :: "nat \<Rightarrow> string \<Rightarrow> string set \<Rightarrow> string option" where
  "findParentCode_from 0 c codeSet = None"
| "findParentCode_from (Suc i) c codeSet =
     (if take (Suc i) c \<in> codeSet then Some (take (Suc i) c)
      else findParentCode_from i c codeSet)"

definition findParentCode :: "string \<Rightarrow> string set \<Rightarrow> string option" where
  "findParentCode c codeSet = findParentCode_from (length c - 1) c codeSet"

section \<open>Hierarchy builder\<close>

text \<open>
  \<open>buildTreeFromList\<close> creates one mutable node object per key of \<open>byCode\<close> and
  links the objects by reference. An object is named by its key; its \<open>subRows\<close>
  array holds the names of the objects pushed to it.
\<close>

record NodeObject =
  nodeRow :: CustomsRecord
  subRows :: "string list"

type_synonym NodeMap = "string \<rightharpoonup> NodeObject"

text \<open>First loop: \<open>byCode.set(row.code, { ...row, subRows: [] })\<close>.\<close>

definition createNodes :: "CustomsFlatRow list \<Rightarrow> NodeMap" where
  "createNodes list =
     fold (\<lambda>r byCode. byCode(code r \<mapsto> \<lparr>nodeRow = r, subRows = []\<rparr>)) list Map.empty"

text \<open>Second loop: each row's object goes to its parent's \<open>subRows\<close> or to \<open>roots\<close>.\<close>

definition attachRow ::
  "string set \<Rightarrow> CustomsFlatRow \<Rightarrow> NodeMap \<times> string list \<Rightarrow> NodeMap \<times> string list" where
  "attachRow presentCodes r st =
     (let byCode = fst st; roots = snd st; node = code r in
      case findParentCode (code r) presentCodes of
        None \<Rightarrow> (byCode, roots @ [node])
      | Some parentCode \<Rightarrow>
          (case byCode parentCode of
             None \<Rightarrow> (byCode, roots @ [node])
           | Some p \<Rightarrow> (byCode(parentCode \<mapsto> p\<lparr>subRows := subRows p @ [node]\<rparr>), roots)))"

definition attachRows ::
  "string set \<Rightarrow> CustomsFlatRow list \<Rightarrow> NodeMap \<Rightarrow> NodeMap \<times> string list" where
  "attachRows presentCodes list byCode = fold (attachRow presentCodes) list (byCode, [])"

text \<open>The comparator applied to two node objects given by name.\<close>

definition compareNodes :: "NodeMap \<Rightarrow> string \<Rightarrow> string \<Rightarrow> int" where
  "compareNodes byCode a b =
     (case (byCode a, byCode b) of
        (Some x, Some y) \<Rightarrow> sortChildren (nodeRow x) (nodeRow y)
      | _ \<Rightarrow> 0)"

text \<open>A JavaScript \<open>Map\<close> iterates its keys in the order of their first insertion.\<close>

definition insertionOrder :: "string list \<Rightarrow> string list" where
  "insertionOrder ks = rev (remdups (rev ks))"

text \<open>Third loop: \<open>if (node.subRows.length > 1) node.subRows.sort(sortChildren)\<close>.\<close>

definition sortNode :: "string \<Rightarrow> NodeMap \<Rightarrow> NodeMap" where
  "sortNode k byCode =
     (case byCode k of
        None \<Rightarrow> byCode
      | Some n \<Rightarrow>
          if length (subRows n) > 1
          then byCode(k \<mapsto> n\<lparr>subRows := array_sort (compareNodes byCode) (subRows n)\<rparr>)
          else byCode)"

definition sortAllNodes :: "string list \<Rightarrow> NodeMap \<Rightarrow> NodeMap" where
  "sortAllNodes ks byCode = fold sortNode ks byCode"

text \<open>The object graph the function leaves behind: the \<open>roots\<close> array and the objects.\<close>

definition buildGraph :: "CustomsFlatRow list \<Rightarrow> string list \<times> NodeMap" where
  "buildGraph list =
     (let presentCodes = set (map code list);
          st = attachRows presentCodes list (createNodes list);
          byCode = sortAllNodes (insertionOrder (map code list)) (fst st);
          roots = array_sort (compareNodes byCode) (snd st)
      in (roots, byCode))"

text \<open>
  The value a caller sees is the tree obtained by following \<open>subRows\<close> from a root.
  Following references need not end on an arbitrary graph, so the reading takes
  fuel and is \<open>None\<close> when the fuel runs out.
\<close>

datatype CustomsTreeNode = TreeNode (row: CustomsRecord) (children: "CustomsTreeNode list")

fun those_list :: "'a option list \<Rightarrow> 'a list option" where
  "those_list [] = Some []"
| "those_list (None # xs) = None"
| "those_list (Some x # xs) = (case those_list xs of None \<Rightarrow> None | Some ys \<Rightarrow> Some (x # ys))"

fun treeOf :: "nat \<Rightarrow> NodeMap \<Rightarrow> string \<Rightarrow> CustomsTreeNode option" where
  "treeOf 0 byCode k = None"
| "treeOf (Suc n) byCode k =
     (case byCode k of
        None \<Rightarrow> None
      | Some obj \<Rightarrow>
          (case those_list (map (treeOf n byCode) (subRows obj)) of
             None \<Rightarrow> None
           | Some ts \<Rightarrow> Some (TreeNode (nodeRow obj) ts)))"

definition buildTreeFromList :: "CustomsFlatRow list \<Rightarrow> CustomsTreeNode list option" where
  "buildTreeFromList list =
     (let g = buildGraph list in those_list (map (treeOf (length list) (snd g)) (fst g)))"

text \<open>Flattening a tree through \<open>subRows\<close>, and all nodes of a tree.\<close>

fun flattenCodes :: "CustomsTreeNode \<Rightarrow> string list" where
  "flattenCodes (TreeNode r ts) = code r # concat (map flattenCodes ts)"

fun allNodes :: "CustomsTreeNode \<Rightarrow> CustomsTreeNode list" where
  "allNodes (TreeNode r ts) = TreeNode r ts # concat (map allNodes ts)"

section \<open>Materialized cache\<close>

text \<open>
  \<open>buildCachedData\<close> of \<open>part_007\<close>. The rows of \<open>cache\<close>, of \<open>byCode\<close> and of the
  buckets are the same objects, so every one of them shows the \<open>rootCode\<close> the loop
  writes.
\<close>

record CachedData =
  cache :: "CustomsFlatRow list"
  byCode :: "string \<rightharpoonup> CustomsFlatRow"
  byRootCode :: "string \<rightharpoonup> CustomsFlatRow list"
  rootOrder :: "string list"

definition compareCode :: "CustomsRecord \<Rightarrow> CustomsRecord \<Rightarrow> int" where
  "compareCode a b = (if code a < code b then - 1 else if code a > code b then 1 else 0)"

lemma findParentCode_from_shorter:
  "findParentCode_from i c codeSet = Some p \<Longrightarrow> length p \<le> i"
  by (induction i) (auto split: if_splits)

lemma findParentCode_shorter:
  "findParentCode c codeSet = Some p \<Longrightarrow> length p < length c"
proof -
  assume a: "findParentCode c codeSet = Some p"
  then have "c \<noteq> []" by (auto simp: findParentCode_def)
  moreover have "length p \<le> length c - 1"
    using a unfolding findParentCode_def by (rule findParentCode_from_shorter)
  ultimately show ?thesis by (cases c) auto
qed

text \<open>
  The walk of \<open>findRoot\<close>: \<open>while (curr) { last = curr; curr = findParentCode(curr, codeSet) }\<close>.
\<close>

function findRoot_walk :: "string set \<Rightarrow> string option \<Rightarrow> string \<Rightarrow> string" where
  "findRoot_walk codeSet cur lst =
     (case cur of
        None \<Rightarrow> lst
      | Some c \<Rightarrow> if c = [] then lst else findRoot_walk codeSet (findParentCode c codeSet) c)"
  by pat_completeness auto
termination
proof (relation "measure (\<lambda>(codeSet, cur, lst). case cur of None \<Rightarrow> 0 | Some c \<Rightarrow> Suc (length c))")
  show "wf (measure (\<lambda>(codeSet, cur, lst). case cur of None \<Rightarrow> 0 | Some c \<Rightarrow> Suc (length c)))"
    by simp
next
  fix codeSet :: "string set" and cur :: "string option" and lst c :: string
  assume "cur = Some c" "c \<noteq> []"
  then show "((codeSet, findParentCode c codeSet, c), (codeSet, cur, lst))
      \<in> measure (\<lambda>(codeSet, cur, lst). case cur of None \<Rightarrow> 0 | Some c \<Rightarrow> Suc (length c))"
    by (cases "findParentCode c codeSet") (auto dest: findParentCode_shorter)
qed

definition findRoot ::
  "string set \<Rightarrow> string \<Rightarrow> (string \<rightharpoonup> string) \<Rightarrow> string \<times> (string \<rightharpoonup> string)" where
  "findRoot codeSet c rootCache =
     (case rootCache c of
        Some r \<Rightarrow> (r, rootCache)
      | None \<Rightarrow>
          (let lst = findRoot_walk codeSet (findParentCode c codeSet) c
           in (lst, rootCache(c \<mapsto> lst))))"

record CacheLoop =
  loopRootCache :: "string \<rightharpoonup> string"
  loopByRootCode :: "string \<rightharpoonup> CustomsFlatRow list"
  loopRootOrder :: "string list"
  loopRows :: "CustomsFlatRow list"

definition bucketRow :: "string set \<Rightarrow> CustomsFlatRow \<Rightarrow> CacheLoop \<Rightarrow> CacheLoop" where
  "bucketRow codeSet r st =
     (let found = findRoot codeSet (code r) (loopRootCache st);
          root = fst found;
          r' = r\<lparr>rootCode := Some root\<rparr>
      in case loopByRootCode st root of
           None \<Rightarrow>
             st\<lparr>loopRootCache := snd found,
                loopByRootCode := (loopByRootCode st)(root \<mapsto> [r']),
                loopRootOrder := loopRootOrder st @ [root],
                loopRows := loopRows st @ [r']\<rparr>
         | Some bucket \<Rightarrow>
             st\<lparr>loopRootCache := snd found,
                loopByRootCode := (loopByRootCode st)(root \<mapsto> bucket @ [r']),
                loopRows := loopRows st @ [r']\<rparr>)"

definition mapFromEntries :: "('k \<times> 'v) list \<Rightarrow> ('k \<rightharpoonup> 'v)" where
  "mapFromEntries entries = fold (\<lambda>e m. m(fst e \<mapsto> snd e)) entries Map.empty"

definition buildCachedData :: "CustomsRecord list \<Rightarrow> CachedData" where
  "buildCachedData rows =
     (let cloned = array_sort compareCode rows;
          codeSet = set (map code cloned);
          st = fold (bucketRow codeSet) cloned
                 \<lparr>loopRootCache = Map.empty, loopByRootCode = Map.empty,
                  loopRootOrder = [], loopRows = []\<rparr>
      in \<lparr>cache = loopRows st,
          byCode = mapFromEntries (map (\<lambda>r. (code r, r)) (loopRows st)),
          byRootCode = loopByRootCode st,
          rootOrder = loopRootOrder st\<rparr>)"

section \<open>Root derivation by parent identifiers\<close>

text \<open>
  \<open>findRootId\<close> of \<open>buildCachedData\<close> in the revision of \<open>lib/database.ts\<close> that links
  records by \<open>parentId\<close>. The function calls itself on the parent before it writes
  the cache, with nothing to stop it on a chain that never ends; a call that does not
  return is \<open>None\<close>. Of a record only the fields read here and by the hierarchy
  builder of that revision are kept: \<open>id\<close>, \<open>parentId\<close>, \<open>code\<close>, \<open>description\<close>.
\<close>

record IdRecord =
  recId :: int
  parentId :: "int option"
  idCode :: string
  idDescription :: string





section \<open>Search hits\<close>

text \<open>
  What \<open>index.search\<close> may hand back, as far as \<open>extractFlexDocHits\<close> looks at it:
  a falsy value, an array, an identifier, or an object with an optional \<open>id\<close>, an
  optional \<open>highlight\<close>, an optional \<open>doc.highlight\<close> and the arrays \<open>result\<close> and
  \<open>hits\<close> (empty when absent). The documents are keyed by their code, so identifiers
  are strings.
\<close>

datatype raw =
    RFalsy
  | RArray "raw list"
  | RId string
  | RObject "string option" "string option" "string option" "raw list" "raw list"

record FlexDocHit =
  hitId :: string
  highlight :: "string option"

fun visit :: "raw \<Rightarrow> FlexDocHit list" where
  "visit RFalsy = []"
| "visit (RArray nodes) = concat (map visit nodes)"
| "visit (RId s) = (if s = [] then [] else [\<lparr>hitId = s, highlight = None\<rparr>])"
| "visit (RObject rawId hl docHl result subHits) =
     (case rawId of
        None \<Rightarrow> []
      | Some i \<Rightarrow> [\<lparr>hitId = i, highlight = (case hl of Some h \<Rightarrow> Some h | None \<Rightarrow> docHl)\<rparr>])
     @ concat (map visit result) @ concat (map visit subHits)"

definition truthy :: "string option \<Rightarrow> bool" where
  "truthy v = (case v of None \<Rightarrow> False | Some s \<Rightarrow> s \<noteq> [])"

text \<open>The de-duplicating \<open>Map\<close>, as an association list in insertion order.\<close>

definition dedupStep ::
  "FlexDocHit \<Rightarrow> (string \<times> string option) list \<Rightarrow> (string \<times> string option) list" where
  "dedupStep h dedup =
     (case map_of dedup (hitId h) of
        None \<Rightarrow> dedup @ [(hitId h, highlight h)]
      | Some old \<Rightarrow>
          if \<not> truthy old \<and> truthy (highlight h)
          then map (\<lambda>e. if fst e = hitId h then (hitId h, highlight h) else e) dedup
          else dedup)"

definition extractFlexDocHits :: "raw \<Rightarrow> FlexDocHit list" where
  "extractFlexDocHits r =
     map (\<lambda>e. \<lparr>hitId = fst e, highlight = snd e\<rparr>) (fold dedupStep (visit r) [])"

section \<open>The data service and its surroundings\<close>

datatype error = StorageError | ConstraintError | ImportError | IndexError

text \<open>A record of the bundled JSON array, every field as it was parsed.\<close>

record SourceRecord =
  src_code :: jsval
  src_description :: jsval
  src_percentage :: jsval
  src_cefta :: jsval
  src_msa :: jsval
  src_trmtl :: jsval
  src_tvsh :: jsval
  src_excise :: jsval
  src_validFrom :: jsval
  src_uomCode :: jsval
  src_fileUrl :: jsval
  src_importMeasure :: jsval
  src_exportMeasure :: jsval

text \<open>
  Everything the service does not own: whether it runs in a browser, the bundled
  dataset (or the failure of its import), which storage operations throw, the
  full-text index of the search library (given the indexed documents, a query and
  a limit it answers or throws), and the two conversions of the language between
  strings and numbers (\<open>None\<close> is a value that is not a finite number).
  \<open>miniSearch\<close> is the index of the revision built on MiniSearch, with each hit
  already carrying the markup that \<open>searchByDescriptionHits\<close> of that revision puts
  around the matched terms.
\<close>

record Env =
  hasWindow :: bool
  dataset :: "error + SourceRecord list"
  countFails :: bool
  readFails :: bool
  scanFails :: bool
  clearFails :: bool
  addFails :: "nat \<Rightarrow> bool"
  indexBuildFails :: bool
  flexSearch :: "(string \<times> string) list \<Rightarrow> string \<Rightarrow> nat option \<Rightarrow> error + raw"
  miniSearch :: "(string \<times> string) list \<Rightarrow> string \<Rightarrow> error + FlexDocHit list"
  stringToNumber :: "string \<Rightarrow> rat option"
  numberToString :: "rat \<Rightarrow> string"

datatype InitializationPhase = LoadData | Indexing | Done | Cached | Failed

record InitializationProgress =
  phase :: InitializationPhase
  loaded :: nat
  total :: nat

text \<open>
  The table \<open>customs\<close>, the static caches of \<open>CustomsDataService\<close> (the four
  \<open>_allData\<close> fields are always written together), the index as the documents added to
  it, what was written to the console and what \<open>onProgress\<close> was told. \<open>commits\<close>
  counts the write transactions that committed; the code keeps no such counter, it
  is there to say that a call wrote nothing.
\<close>

record ServiceState =
  customs :: "CustomsRecord list"
  allDataCache :: "CachedData option"
  descriptionIndex :: "(string \<times> string) list option"
  console :: "string list"
  reported :: "InitializationProgress list"
  commits :: nat

record SearchOptions =
  parentLimit :: nat
  itemLimit :: nat

definition defaultOptions :: SearchOptions where
  "defaultOptions = \<lparr>parentLimit = 200, itemLimit = 4000\<rparr>"


definition CODE_SEARCH_MULTIPLIER :: nat where
  "CODE_SEARCH_MULTIPLIER = 4"

definition DESC_SEARCH_MULTIPLIER :: nat where
  "DESC_SEARCH_MULTIPLIER = 6"

definition MAX_ALL_DATA_LIMIT :: nat where
  "MAX_ALL_DATA_LIMIT = 10000"

subsection \<open>The table\<close>

text \<open>
  The table is keyed by \<open>code\<close>: it is read in key order, \<open>bulkAdd\<close> refuses a key
  that is already there, and a transaction whose body throws leaves the table as it
  was.
\<close>

definition tableToArray :: "CustomsRecord list \<Rightarrow> CustomsRecord list" where
  "tableToArray tbl = sort_key code tbl"


definition primaryKeysStartingWith :: "string \<Rightarrow> nat \<Rightarrow> CustomsRecord list \<Rightarrow> string list" where
  "primaryKeysStartingWith p n tbl = take n (filter (prefix p) (map code (tableToArray tbl)))"

subsection \<open>Normalisation\<close>







subsection \<open>\<open>initializeData\<close>\<close>






definition logLine :: "string \<Rightarrow> ServiceState \<Rightarrow> ServiceState" where
  "logLine msg s = s\<lparr>console := console s @ [msg]\<rparr>"



subsection \<open>Caches\<close>

definition emptyCache :: CachedData where
  "emptyCache = \<lparr>cache = [], byCode = Map.empty, byRootCode = Map.empty, rootOrder = []\<rparr>"

text \<open>
  \<open>ensureAllDataCache\<close>: an array, even an empty one, is truthy, so a cache that was
  set is returned as it is. A failed read is caught here, logged, and leaves the
  empty cache behind.
\<close>

definition ensureAllDataCache :: "Env \<Rightarrow> ServiceState \<Rightarrow> CustomsFlatRow list \<times> ServiceState" where
  "ensureAllDataCache env s =
     (case allDataCache s of
        Some c \<Rightarrow> (cache c, s)
      | None \<Rightarrow>
          if \<not> hasWindow env then ([], s)
          else if readFails env
          then ([], (logLine ''Error building data cache:'' s)\<lparr>allDataCache := Some emptyCache\<rparr>)
          else
            (let c = buildCachedData (tableToArray (customs s))
             in (cache c, s\<lparr>allDataCache := Some c\<rparr>)))"

definition ensureDescriptionIndex ::
  "Env \<Rightarrow> ServiceState \<Rightarrow> (error + (string \<times> string) list) \<times> ServiceState" where
  "ensureDescriptionIndex env s =
     (case descriptionIndex s of
        Some idx \<Rightarrow> (Inr idx, s)
      | None \<Rightarrow>
          (let r = ensureAllDataCache env s; s1 = snd r in
           if indexBuildFails env then (Inl IndexError, s1)
           else
             (let idx = map (\<lambda>rw. (code rw, description rw)) (fst r)
              in (Inr idx, s1\<lparr>descriptionIndex := Some idx\<rparr>))))"

text \<open>
  \<open>getAllData\<close>: the cache, row by row copied. Nothing inside its \<open>try\<close> throws,
  since \<open>ensureAllDataCache\<close> catches its own failures.
\<close>

definition getAllData :: "Env \<Rightarrow> ServiceState \<Rightarrow> CustomsFlatRow list \<times> ServiceState" where
  "getAllData env s = ensureAllDataCache env s"

subsection \<open>\<open>searchByFields\<close>\<close>

definition isSpace :: "char \<Rightarrow> bool" where
  "isSpace c \<longleftrightarrow> c \<in> {CHR '' '', CHR 0x09, CHR 0x0A, CHR 0x0B, CHR 0x0C, CHR 0x0D}"

definition trim :: "string \<Rightarrow> string" where
  "trim s = rev (dropWhile isSpace (rev (dropWhile isSpace s)))"

definition searchByCodeCodes ::
  "Env \<Rightarrow> string \<Rightarrow> nat \<Rightarrow> ServiceState \<Rightarrow> error + string set" where
  "searchByCodeCodes env codePrefix pLimit s =
     (if scanFails env then Inl StorageError
      else Inr (set (primaryKeysStartingWith codePrefix (pLimit * CODE_SEARCH_MULTIPLIER)
                       (customs s))))"

text \<open>\<open>Math.min(itemLimit * DESC_SEARCH_MULTIPLIER, dataLength) || undefined\<close>.\<close>

definition searchLimit :: "nat \<Rightarrow> nat \<Rightarrow> nat option" where
  "searchLimit iLimit dataLength =
     (let n = min (iLimit * DESC_SEARCH_MULTIPLIER) dataLength in if n = 0 then None else Some n)"

definition searchByDescriptionHits ::
  "Env \<Rightarrow> string \<Rightarrow> nat \<Rightarrow> ServiceState \<Rightarrow> (error + FlexDocHit list) \<times> ServiceState" where
  "searchByDescriptionHits env query iLimit s =
     (case ensureDescriptionIndex env s of
        (Inl e, s1) \<Rightarrow> (Inl e, s1)
      | (Inr idx, s1) \<Rightarrow>
          (let r = ensureAllDataCache env s1; dataLength = length (fst r); s2 = snd r in
           case flexSearch env idx query (searchLimit iLimit dataLength) of
             Inl e \<Rightarrow> (Inl e, s2)
           | Inr rw \<Rightarrow> (Inr (extractFlexDocHits rw), s2)))"

definition intersectCodes :: "string set option \<Rightarrow> string set option \<Rightarrow> string set" where
  "intersectCodes a b =
     (case (a, b) of
        (Some x, Some y) \<Rightarrow> {c \<in> x. c \<in> y}
      | (Some x, None) \<Rightarrow> x
      | (None, Some y) \<Rightarrow> y
      | (None, None) \<Rightarrow> {})"

text \<open>
  The inner loop of \<open>buildSearchResults\<close>: push the row, then leave the whole function
  once \<open>results.length >= itemLimit\<close>. The flag says that the function returned.
\<close>

fun pushBucket ::
  "(string \<rightharpoonup> string) \<Rightarrow> nat \<Rightarrow> CustomsFlatRow list \<Rightarrow> CustomsFlatRow list
     \<Rightarrow> CustomsFlatRow list \<times> bool" where
  "pushBucket highlightByCode iLimit [] results = (results, False)"
| "pushBucket highlightByCode iLimit (r # bucket) results =
     (let results' = results @
            [r\<lparr>highlightedDescription :=
                 (case highlightByCode (code r) of
                    Some h \<Rightarrow> Some h
                  | None \<Rightarrow> highlightedDescription r)\<rparr>]
      in if length results' \<ge> iLimit then (results', True)
         else pushBucket highlightByCode iLimit bucket results')"

fun pushRoots ::
  "CachedData \<Rightarrow> string set \<Rightarrow> (string \<rightharpoonup> string) \<Rightarrow> nat \<Rightarrow> string list
     \<Rightarrow> CustomsFlatRow list \<Rightarrow> CustomsFlatRow list" where
  "pushRoots c matchedRootCodes highlightByCode iLimit [] results = results"
| "pushRoots c matchedRootCodes highlightByCode iLimit (rt # roots) results =
     (if rt \<notin> matchedRootCodes
      then pushRoots c matchedRootCodes highlightByCode iLimit roots results
      else
        (case byRootCode c rt of
           None \<Rightarrow> pushRoots c matchedRootCodes highlightByCode iLimit roots results
         | Some bucket \<Rightarrow>
             (case pushBucket highlightByCode iLimit bucket results of
                (results', True) \<Rightarrow> results'
              | (results', False) \<Rightarrow>
                  pushRoots c matchedRootCodes highlightByCode iLimit roots results')))"

definition matchedRoots :: "CachedData \<Rightarrow> string set \<Rightarrow> string set" where
  "matchedRoots c codes =
     (\<Union>k\<in>codes.
        case byCode c k of
          None \<Rightarrow> {}
        | Some r \<Rightarrow> {case rootCode r of Some x \<Rightarrow> x | None \<Rightarrow> code r})"

definition buildSearchResults ::
  "string set \<Rightarrow> (string \<rightharpoonup> string) \<Rightarrow> nat \<Rightarrow> ServiceState \<Rightarrow> CustomsFlatRow list" where
  "buildSearchResults codes highlightByCode iLimit s =
     (case allDataCache s of
        None \<Rightarrow> []
      | Some c \<Rightarrow>
          (let matchedRootCodes = matchedRoots c codes in
           if matchedRootCodes = {} then []
           else pushRoots c matchedRootCodes highlightByCode iLimit (rootOrder c) []))"

definition highlightMap :: "FlexDocHit list \<Rightarrow> (string \<rightharpoonup> string)" where
  "highlightMap hits =
     fold (\<lambda>h m. case highlight h of
                    None \<Rightarrow> m
                  | Some hl \<Rightarrow> if hl = [] then m else m(hitId h \<mapsto> hl))
       hits Map.empty"

text \<open>The \<open>try\<close> block of \<open>searchByFields\<close>.\<close>

definition searchBody ::
  "Env \<Rightarrow> string \<Rightarrow> string \<Rightarrow> SearchOptions \<Rightarrow> ServiceState
     \<Rightarrow> (error + CustomsFlatRow list) \<times> ServiceState" where
  "searchBody env idPrefix descQuery opts s =
     (let codePrefix = trim idPrefix;
          descQueryTrimmed = trim descQuery;
          hasCodeQuery = length codePrefix > 0;
          hasDescQuery = length descQueryTrimmed > 0
      in
      if \<not> hasCodeQuery \<and> \<not> hasDescQuery
      then
        (let r = getAllData env s
         in (Inr (take (min (itemLimit opts) MAX_ALL_DATA_LIMIT) (fst r)), snd r))
      else
        (let r = ensureAllDataCache env s; s1 = snd r in
         if fst r = [] then (Inr [], logLine ''No data available for search'' s1)
         else
           (case (if hasCodeQuery
                  then map_sum id Some (searchByCodeCodes env codePrefix (parentLimit opts) s1)
                  else Inr None) of
              Inl e \<Rightarrow> (Inl e, s1)
            | Inr codeSet \<Rightarrow>
                (case (if hasDescQuery
                       then (case searchByDescriptionHits env descQueryTrimmed (itemLimit opts) s1 of
                               (res, s2) \<Rightarrow> (map_sum id Some res, s2))
                       else (Inr None, s1)) of
                   (Inl e, s2) \<Rightarrow> (Inl e, s2)
                 | (Inr descHits, s2) \<Rightarrow>
                     (let highlightByCode =
                            (case descHits of None \<Rightarrow> Map.empty | Some hs \<Rightarrow> highlightMap hs);
                          descCodes = map_option (\<lambda>hs. set (map hitId hs)) descHits;
                          finalCodes = intersectCodes codeSet descCodes
                      in if finalCodes = {} then (Inr [], s2)
                         else (Inr (buildSearchResults finalCodes highlightByCode
                                      (itemLimit opts) s2), s2))))))"

definition searchByFields ::
  "Env \<Rightarrow> string \<Rightarrow> string \<Rightarrow> SearchOptions \<Rightarrow> ServiceState
     \<Rightarrow> CustomsFlatRow list \<times> ServiceState" where
  "searchByFields env idPrefix descQuery opts s =
     (if \<not> hasWindow env then ([], s)
      else
        (case searchBody env idPrefix descQuery opts s of
           (Inl e, s') \<Rightarrow> ([], logLine ''Search failed:'' s')
         | (Inr rows, s') \<Rightarrow> (rows, s')))"

section \<open>Hierarchy builder by parent identifiers\<close>

text \<open>
  \<open>sortChildren\<close> and \<open>buildTreeFromList\<close> of the same revision: nodes are kept in
  \<open>byId\<close>, a row whose \<open>parentId\<close> is \<open>null\<close> or names no node is a root.
\<close>

definition sortChildrenById :: "IdRecord \<Rightarrow> IdRecord \<Rightarrow> int" where
  "sortChildrenById a b =
     (let ac = idCode a; bc = idCode b in
      if ac < bc then - 1
      else if ac > bc then 1
      else
        (let ad = idDescription a; bd = idDescription b in
         if ad < bd then - 1 else if ad > bd then 1 else recId a - recId b))"

record IdNodeObject =
  idNodeRow :: IdRecord
  idSubRows :: "int list"

type_synonym IdNodeMap = "int \<rightharpoonup> IdNodeObject"

definition createIdNodes :: "IdRecord list \<Rightarrow> IdNodeMap" where
  "createIdNodes list =
     fold (\<lambda>r byId. byId(recId r \<mapsto> \<lparr>idNodeRow = r, idSubRows = []\<rparr>)) list Map.empty"

definition attachIdRow :: "IdRecord \<Rightarrow> IdNodeMap \<times> int list \<Rightarrow> IdNodeMap \<times> int list" where
  "attachIdRow r st =
     (let byId = fst st; roots = snd st in
      case byId (recId r) of
        None \<Rightarrow> st
      | Some node \<Rightarrow>
          (case parentId r of
             None \<Rightarrow> (byId, roots @ [recId r])
           | Some pid \<Rightarrow>
               (case byId pid of
                  None \<Rightarrow> (byId, roots @ [recId r])
                | Some p \<Rightarrow> (byId(pid \<mapsto> p\<lparr>idSubRows := idSubRows p @ [recId r]\<rparr>), roots))))"

definition compareIdNodes :: "IdNodeMap \<Rightarrow> int \<Rightarrow> int \<Rightarrow> int" where
  "compareIdNodes byId a b =
     (case (byId a, byId b) of
        (Some x, Some y) \<Rightarrow> sortChildrenById (idNodeRow x) (idNodeRow y)
      | _ \<Rightarrow> 0)"

definition sortIdNode :: "int \<Rightarrow> IdNodeMap \<Rightarrow> IdNodeMap" where
  "sortIdNode k byId =
     (case byId k of
        None \<Rightarrow> byId
      | Some n \<Rightarrow>
          if length (idSubRows n) > 1
          then byId(k \<mapsto> n\<lparr>idSubRows := array_sort (compareIdNodes byId) (idSubRows n)\<rparr>)
          else byId)"

definition buildIdGraph :: "IdRecord list \<Rightarrow> int list \<times> IdNodeMap" where
  "buildIdGraph list =
     (let st = fold attachIdRow list (createIdNodes list, []);
          byId = fold sortIdNode (rev (remdups (rev (map recId list)))) (fst st);
          roots = array_sort (compareIdNodes byId) (snd st)
      in (roots, byId))"

datatype IdTreeNode = IdTreeNode (idRow: IdRecord) (idChildren: "IdTreeNode list")

fun idTreeOf :: "nat \<Rightarrow> IdNodeMap \<Rightarrow> int \<Rightarrow> IdTreeNode option" where
  "idTreeOf 0 byId k = None"
| "idTreeOf (Suc n) byId k =
     (case byId k of
        None \<Rightarrow> None
      | Some obj \<Rightarrow>
          (case those_list (map (idTreeOf n byId) (idSubRows obj)) of
             None \<Rightarrow> None
           | Some ts \<Rightarrow> Some (IdTreeNode (idNodeRow obj) ts)))"

definition buildTreeFromIdList :: "IdRecord list \<Rightarrow> IdTreeNode list option" where
  "buildTreeFromIdList list =
     (let g = buildIdGraph list in those_list (map (idTreeOf (length list) (snd g)) (fst g)))"

fun flattenIds :: "IdTreeNode \<Rightarrow> int list" where
  "flattenIds (IdTreeNode r ts) = recId r # concat (map flattenIds ts)"

fun allIdNodes :: "IdTreeNode \<Rightarrow> IdTreeNode list" where
  "allIdNodes (IdTreeNode r ts) = IdTreeNode r ts # concat (map allIdNodes ts)"

section \<open>The revision built on MiniSearch\<close>

text \<open>
  The first revision in \<open>lib/database.ts\<close> keeps no cache: it answers from the table,
  walking up by \<open>findExistingParent\<close> and collecting rows in a \<open>Map\<close> keyed by code.
  A \<open>get\<close> or \<open>toArray\<close> that throws is \<open>readFails\<close>, a \<open>where(...).startsWith\<close>
  that throws is \<open>scanFails\<close>. The private functions run behind the check for a
  browser in \<open>searchByFields\<close> and \<open>initializeData\<close>, where \<open>getDb\<close> returns.
  \<open>Promise.all\<close> over a list is \<open>sequenceAll\<close>: the results in order, or the failure.
\<close>

definition findExistingParent :: "Env \<Rightarrow> CustomsRecord list \<Rightarrow> string \<Rightarrow> error + string option" where
  "findExistingParent env tbl c =
     (if readFails env \<and> length c \<ge> 2 then Inl StorageError
      else Inr (findParentCode c (set (map code tbl))))"

function getLowestExistingAncestor ::
  "Env \<Rightarrow> CustomsRecord list \<Rightarrow> string option \<Rightarrow> error + string option" where
  "getLowestExistingAncestor env tbl cur =
     (case cur of
        None \<Rightarrow> Inr None
      | Some c \<Rightarrow>
          if c = [] then Inr None
          else if readFails env then Inl StorageError
          else if c \<in> set (map code tbl) then Inr (Some c)
          else getLowestExistingAncestor env tbl (findParentCode c (set (map code tbl))))"
  by pat_completeness auto
termination
proof (relation "measure (\<lambda>(env, tbl, cur). case cur of None \<Rightarrow> 0 | Some c \<Rightarrow> Suc (length c))")
  show "wf (measure (\<lambda>(env, tbl, cur). case cur of None \<Rightarrow> 0 | Some c \<Rightarrow> Suc (length c)))"
    by simp
next
  fix env :: Env and tbl :: "CustomsRecord list" and cur :: "string option" and c :: string
  assume "cur = Some c"
  then show "((env, tbl, findParentCode c (set (map code tbl))), (env, tbl, cur))
      \<in> measure (\<lambda>(env, tbl, cur). case cur of None \<Rightarrow> 0 | Some c \<Rightarrow> Suc (length c))"
    by (cases "findParentCode c (set (map code tbl))") (auto dest: findParentCode_shorter)
qed

text \<open>\<open>getPath\<close>: the loop that puts each parent in front of the path.\<close>

function getPath_from ::
  "Env \<Rightarrow> CustomsRecord list \<Rightarrow> string \<Rightarrow> string list \<Rightarrow> error + string list" where
  "getPath_from env tbl cur path =
     (case findExistingParent env tbl cur of
        Inl e \<Rightarrow> Inl e
      | Inr None \<Rightarrow> Inr path
      | Inr (Some p) \<Rightarrow> getPath_from env tbl p (p # path))"
  by pat_completeness auto
termination
proof (relation "measure (\<lambda>(env, tbl, cur, path). length cur)")
  show "wf (measure (\<lambda>(env, tbl, cur, path). length cur))" by simp
next
  fix env :: Env and tbl :: "CustomsRecord list" and cur :: string and path :: "string list"
    and x :: "string option" and p :: string
  assume "findExistingParent env tbl cur = Inr x" "x = Some p"
  then have "findParentCode cur (set (map code tbl)) = Some p"
    by (auto simp: findExistingParent_def split: if_splits)
  then show "((env, tbl, p, p # path), (env, tbl, cur, path))
      \<in> measure (\<lambda>(env, tbl, cur, path). length cur)"
    by (auto dest: findParentCode_shorter)
qed

definition getPath :: "Env \<Rightarrow> CustomsRecord list \<Rightarrow> string \<Rightarrow> error + string list" where
  "getPath env tbl target = getPath_from env tbl target [target]"

definition startingWith :: "Env \<Rightarrow> CustomsRecord list \<Rightarrow> string \<Rightarrow> error + CustomsRecord list" where
  "startingWith env tbl p =
     (if scanFails env then Inl StorageError
      else Inr (filter (\<lambda>r. prefix p (code r)) (tableToArray tbl)))"

definition getDirectChildrenRecords ::
  "Env \<Rightarrow> CustomsRecord list \<Rightarrow> string \<Rightarrow> error + CustomsRecord list" where
  "getDirectChildrenRecords env tbl parentCode =
     (case startingWith env tbl parentCode of
        Inl e \<Rightarrow> Inl e
      | Inr candidates \<Rightarrow>
          if candidates = [] then Inr []
          else
            (let codeSet = set (map code candidates) in
             Inr (array_sort sortChildren
                    (filter (\<lambda>r. code r \<noteq> parentCode \<and>
                                 findParentCode (code r) codeSet = Some parentCode)
                       candidates))))"

text \<open>\<open>addRecord\<close>: a row enters \<open>allRecords\<close> unless its code is already a key.\<close>

definition addRecord :: "CustomsRecord \<Rightarrow> CustomsRecord list \<Rightarrow> CustomsRecord list" where
  "addRecord r allRecords =
     (if code r \<in> set (map code allRecords) then allRecords else allRecords @ [r])"

fun sequenceAll :: "('a \<Rightarrow> error + 'b) \<Rightarrow> 'a list \<Rightarrow> error + 'b list" where
  "sequenceAll f [] = Inr []"
| "sequenceAll f (x # xs) =
     (case f x of
        Inl e \<Rightarrow> Inl e
      | Inr y \<Rightarrow> (case sequenceAll f xs of Inl e \<Rightarrow> Inl e | Inr ys \<Rightarrow> Inr (y # ys)))"

definition getRecord :: "Env \<Rightarrow> CustomsRecord list \<Rightarrow> string \<Rightarrow> error + CustomsRecord option" where
  "getRecord env tbl c =
     (if readFails env then Inl StorageError else Inr (find (\<lambda>r. code r = c) tbl))"

definition getSubtreeWithAncestors ::
  "Env \<Rightarrow> CustomsRecord list \<Rightarrow> string \<Rightarrow> error + CustomsFlatRow list" where
  "getSubtreeWithAncestors env tbl target =
     (case startingWith env tbl target of
        Inl e \<Rightarrow> Inl e
      | Inr subtree \<Rightarrow>
          if subtree = [] then Inr []
          else
            (case getLowestExistingAncestor env tbl (Some target) of
               Inl e \<Rightarrow> Inl e
             | Inr lca \<Rightarrow>
                 (case (case lca of None \<Rightarrow> Inr [] | Some l \<Rightarrow> getPath env tbl l) of
                    Inl e \<Rightarrow> Inl e
                  | Inr pathToLca \<Rightarrow>
                      (case sequenceAll (getRecord env tbl) pathToLca of
                         Inl e \<Rightarrow> Inl e
                       | Inr ancestorRecords \<Rightarrow>
                           (case sequenceAll (findExistingParent env tbl) pathToLca of
                              Inl e \<Rightarrow> Inl e
                            | Inr parents \<Rightarrow>
                                (let parentsForSiblings =
                                       insertionOrder (concat (map (\<lambda>p. case p of None \<Rightarrow> [] | Some c \<Rightarrow> [c]) parents))
                                 in case sequenceAll (getDirectChildrenRecords env tbl) parentsForSiblings of
                                      Inl e \<Rightarrow> Inl e
                                    | Inr siblings \<Rightarrow>
                                        Inr (array_sort sortChildren
                                               (fold addRecord
                                                  (subtree
                                                   @ concat (map (\<lambda>r. case r of None \<Rightarrow> [] | Some x \<Rightarrow> [x]) ancestorRecords)
                                                   @ concat siblings)
                                                  []))))))))"

definition setHighlight :: "(string \<rightharpoonup> string option) \<Rightarrow> CustomsRecord \<Rightarrow> CustomsRecord" where
  "setHighlight highlightOf r =
     (case highlightOf (code r) of
        Some (Some hl) \<Rightarrow> if hl = [] then r else r\<lparr>highlightedDescription := Some hl\<rparr>
      | _ \<Rightarrow> r)"

definition getSubtreesForHits ::
  "Env \<Rightarrow> CustomsRecord list \<Rightarrow> string list \<Rightarrow> FlexDocHit list \<Rightarrow> error + CustomsFlatRow list" where
  "getSubtreesForHits env tbl codes hits =
     (let highlightOf = mapFromEntries (map (\<lambda>h. (hitId h, highlight h)) hits) in
      case sequenceAll (getSubtreeWithAncestors env tbl) codes of
        Inl e \<Rightarrow> Inl e
      | Inr subtrees \<Rightarrow>
          Inr (array_sort sortChildren
                 (map (setHighlight highlightOf) (fold addRecord (concat subtrees) []))))"

definition ensureDescriptionIndexMini ::
  "Env \<Rightarrow> ServiceState \<Rightarrow> (error + (string \<times> string) list) \<times> ServiceState" where
  "ensureDescriptionIndexMini env s =
     (case descriptionIndex s of
        Some idx \<Rightarrow> (Inr idx, s)
      | None \<Rightarrow>
          if readFails env then (Inl StorageError, s)
          else if indexBuildFails env then (Inl IndexError, s)
          else
            (let idx = map (\<lambda>rw. (code rw, description rw)) (tableToArray (customs s))
             in (Inr idx, s\<lparr>descriptionIndex := Some idx\<rparr>)))"

definition searchByDescriptionHitsMini ::
  "Env \<Rightarrow> string \<Rightarrow> ServiceState \<Rightarrow> (error + FlexDocHit list) \<times> ServiceState" where
  "searchByDescriptionHitsMini env query s =
     (case ensureDescriptionIndexMini env s of
        (Inl e, s1) \<Rightarrow> (Inl e, s1)
      | (Inr idx, s1) \<Rightarrow> (miniSearch env idx query, s1))"

definition getAllDataMini :: "Env \<Rightarrow> ServiceState \<Rightarrow> CustomsFlatRow list \<times> ServiceState" where
  "getAllDataMini env s =
     (if \<not> hasWindow env \<or> readFails env then ([], logLine ''Error fetching all data:'' s)
      else (tableToArray (customs s), s))"

definition searchBodyMini ::
  "Env \<Rightarrow> string \<Rightarrow> string \<Rightarrow> ServiceState \<Rightarrow> (error + CustomsFlatRow list) \<times> ServiceState" where
  "searchBodyMini env idPrefix descQuery s =
     (let codePrefix = trim idPrefix;
          descQueryTrimmed = trim descQuery;
          hasCodeQuery = length codePrefix > 0;
          hasDescQuery = length descQueryTrimmed > 0
      in
      if \<not> hasCodeQuery \<and> \<not> hasDescQuery
      then (let r = getAllDataMini env s in (Inr (fst r), snd r))
      else if \<not> hasDescQuery
      then (getSubtreeWithAncestors env (customs s) codePrefix, s)
      else
        (case searchByDescriptionHitsMini env descQueryTrimmed s of
           (Inl e, s1) \<Rightarrow> (Inl e, s1)
         | (Inr hits, s1) \<Rightarrow>
             (let relevantHits =
                    (if hasCodeQuery then filter (\<lambda>h. prefix codePrefix (hitId h)) hits else hits)
              in if relevantHits = []
                 then (if hasCodeQuery
                       then (getSubtreeWithAncestors env (customs s1) codePrefix, s1)
                       else (Inr [], s1))
                 else (getSubtreesForHits env (customs s1) (map hitId relevantHits) relevantHits,
                       s1))))"

definition searchByFieldsMini ::
  "Env \<Rightarrow> string \<Rightarrow> string \<Rightarrow> ServiceState \<Rightarrow> CustomsFlatRow list \<times> ServiceState" where
  "searchByFieldsMini env idPrefix descQuery s =
     (if \<not> hasWindow env then ([], s)
      else
        (case searchBodyMini env idPrefix descQuery s of
           (Inl e, s') \<Rightarrow> ([], logLine ''Search failed:'' s')
         | (Inr rows, s') \<Rightarrow> (rows, s')))"



section \<open>Normalisation in the revision keyed by \<open>id\<close>\<close>


section \<open>Notions used in the statements and proofs\<close>

text \<open>
  \<open>ancestorOf k c\<close>: \<open>k\<close> is one of the prefixes \<open>findParentCode\<close> tries for \<open>c\<close>.
  \<open>kidCodes\<close> are the codes attached below a parent (\<open>None\<close>: the roots), \<open>rowAt\<close>
  is the row whose object \<open>byCode\<close> keeps under a key, \<open>graphOf\<close> the object graph in
  closed form, \<open>members\<close> the codes below a parent at any depth.
\<close>

definition ancestorOf :: "string \<Rightarrow> string \<Rightarrow> bool" where
  "ancestorOf k c \<longleftrightarrow> k \<noteq> [] \<and> strict_prefix k c"

definition parentIn :: "CustomsFlatRow list \<Rightarrow> string \<Rightarrow> string option" where
  "parentIn list c = findParentCode c (set (map code list))"

definition kidCodes :: "CustomsFlatRow list \<Rightarrow> string option \<Rightarrow> string list" where
  "kidCodes list par = sort (map code (filter (\<lambda>r. parentIn list (code r) = par) list))"

definition rowAt :: "CustomsFlatRow list \<Rightarrow> string \<Rightarrow> CustomsFlatRow option" where
  "rowAt list k = map_of (rev (map (\<lambda>r. (code r, r)) list)) k"

definition graphOf :: "CustomsFlatRow list \<Rightarrow> NodeMap" where
  "graphOf list k =
     map_option (\<lambda>r. \<lparr>nodeRow = r, subRows = kidCodes list (Some k)\<rparr>) (rowAt list k)"

definition members :: "CustomsFlatRow list \<Rightarrow> string option \<Rightarrow> string set" where
  "members list par =
     {c \<in> code ` set list. case par of None \<Rightarrow> True | Some k \<Rightarrow> ancestorOf k c}"

definition nodeOK :: "CustomsFlatRow list \<Rightarrow> CustomsTreeNode \<Rightarrow> bool" where
  "nodeOK list u \<longleftrightarrow>
     rowAt list (code (row u)) = Some (row u) \<and>
     map (\<lambda>ch. Some (row ch)) (children u) = map (rowAt list) (kidCodes list (Some (code (row u))))"

definition treeSpec :: "CustomsFlatRow list \<Rightarrow> string \<Rightarrow> CustomsTreeNode \<Rightarrow> bool" where
  "treeSpec list k t \<longleftrightarrow>
     rowAt list k = Some (row t) \<and>
     set (flattenCodes t) = insert k (members list (Some k)) \<and>
     distinct (flattenCodes t) \<and>
     (\<forall>u\<in>set (allNodes t). nodeOK list u)"

definition parentOK :: "CustomsFlatRow list \<Rightarrow> string option \<Rightarrow> bool" where
  "parentOK list par \<longleftrightarrow> (case par of None \<Rightarrow> True | Some p \<Rightarrow> p \<in> code ` set list)"

definition flattenForest :: "CustomsTreeNode list \<Rightarrow> string list" where
  "flattenForest forest = concat (map flattenCodes forest)"

definition forestNodes :: "CustomsTreeNode list \<Rightarrow> CustomsTreeNode list" where
  "forestNodes forest = concat (map allNodes forest)"

text \<open>The rows of the example scenario, out of order.\<close>

definition exampleRows :: "CustomsFlatRow list" where
  "exampleRows =
     [plainRow ''0102'' ''Gomar'', plainRow ''01'' ''Kafshe'', plainRow ''02'' ''Mish'',
      plainRow ''0101'' ''Kuaj'']"

text \<open>
  \<open>rootOf\<close> is the walk of \<open>findRoot\<close> from a code, \<open>topmost S c rt\<close> says that \<open>rt\<close>
  is \<open>c\<close> or one of its prefixes in \<open>S\<close> and has no parent in \<open>S\<close>; \<open>loopInv\<close> is what
  holds of the loop of \<open>buildCachedData\<close> after the rows \<open>seen\<close>.
\<close>

definition rootOf :: "string set \<Rightarrow> string \<Rightarrow> string" where
  "rootOf S c = findRoot_walk S (findParentCode c S) c"

definition setRoot :: "string set \<Rightarrow> CustomsFlatRow \<Rightarrow> CustomsFlatRow" where
  "setRoot S r = r\<lparr>rootCode := Some (rootOf S (code r))\<rparr>"

definition rootsSeen :: "string set \<Rightarrow> CustomsFlatRow list \<Rightarrow> string set" where
  "rootsSeen S rows = (\<lambda>r. rootOf S (code r)) ` set rows"

definition bucketOf :: "string set \<Rightarrow> CustomsFlatRow list \<Rightarrow> string \<Rightarrow> CustomsFlatRow list" where
  "bucketOf S rows rt = filter (\<lambda>r. rootCode r = Some rt) (map (setRoot S) rows)"

definition loopInv :: "string set \<Rightarrow> CustomsFlatRow list \<Rightarrow> CacheLoop \<Rightarrow> bool" where
  "loopInv S seen st \<longleftrightarrow>
     loopRootCache st = (\<lambda>k. if k \<in> code ` set seen then Some (rootOf S k) else None) \<and>
     loopRows st = map (setRoot S) seen \<and>
     loopRootOrder st = insertionOrder (map (\<lambda>r. rootOf S (code r)) seen) \<and>
     loopByRootCode st = (\<lambda>rt. if rt \<in> rootsSeen S seen then Some (bucketOf S seen rt) else None)"







text \<open>
  A small world for the examples: an index that answers with the documents whose
  description contains the query, a browser in which nothing fails, a dataset of
  four records with fields missing, and a service that has not run yet.
\<close>

definition sampleSearch :: "(string \<times> string) list \<Rightarrow> string \<Rightarrow> nat option \<Rightarrow> error + raw" where
  "sampleSearch docs q n =
     Inr (RArray (map (\<lambda>d. RId (fst d)) (filter (\<lambda>d. sublist q (snd d)) docs)))"

definition sourceRow :: "string \<Rightarrow> string \<Rightarrow> SourceRecord" where
  "sourceRow c d =
     \<lparr>src_code = JStr c, src_description = JStr d, src_percentage = JNum 10,
      src_cefta = JStr ''n/a'', src_msa = JUndefined, src_trmtl = JNull, src_tvsh = JNum 18,
      src_excise = JUndefined, src_validFrom = JUndefined, src_uomCode = JUndefined,
      src_fileUrl = JUndefined, src_importMeasure = JUndefined, src_exportMeasure = JNull\<rparr>"

definition exampleSource :: "SourceRecord list" where
  "exampleSource =
     [sourceRow ''01'' ''Kafshe'', sourceRow ''0101'' ''Kuaj'', sourceRow ''0102'' ''Gomar'',
      sourceRow ''02'' ''Mish'']"

definition sampleEnv :: Env where
  "sampleEnv =
     \<lparr>hasWindow = True, dataset = Inr exampleSource, countFails = False, readFails = False,
      scanFails = False, clearFails = False, addFails = (\<lambda>start. False),
      indexBuildFails = False, flexSearch = sampleSearch,
      miniSearch = (\<lambda>docs q. Inr (map (\<lambda>d. \<lparr>hitId = fst d, highlight = None\<rparr>)
                                   (filter (\<lambda>d. sublist q (snd d)) docs))),
      stringToNumber = (\<lambda>s. None), numberToString = (\<lambda>q. [])\<rparr>"

definition sampleState :: "CustomsRecord list \<Rightarrow> ServiceState" where
  "sampleState rows =
     \<lparr>customs = rows, allDataCache = None, descriptionIndex = None, console = [],
      reported = [], commits = 0\<rparr>"

text \<open>
  \<open>hlRow\<close> is the row \<open>buildSearchResults\<close> pushes, \<open>emitted\<close> the rows of the buckets it
  visits. \<open>stateOK\<close> is the shape the service keeps: codes are unique in the table
  (they are its primary key), and a cache that is set was built by \<open>buildCachedData\<close>
  from rows with unique codes.
\<close>

definition hlRow :: "(string \<rightharpoonup> string) \<Rightarrow> CustomsFlatRow \<Rightarrow> CustomsFlatRow" where
  "hlRow hl r =
     r\<lparr>highlightedDescription :=
         (case hl (code r) of Some h \<Rightarrow> Some h | None \<Rightarrow> highlightedDescription r)\<rparr>"

definition emitted :: "CachedData \<Rightarrow> string set \<Rightarrow> string list \<Rightarrow> CustomsFlatRow list" where
  "emitted c M roots =
     concat (map (\<lambda>rt. the (byRootCode c rt))
               (filter (\<lambda>rt. rt \<in> M \<and> byRootCode c rt \<noteq> None) roots))"

definition cacheOK :: "CachedData \<Rightarrow> bool" where
  "cacheOK c \<longleftrightarrow> (\<exists>rows. distinct (map code rows) \<and> c = buildCachedData rows)"

definition stateOK :: "ServiceState \<Rightarrow> bool" where
  "stateOK s \<longleftrightarrow>
     distinct (map code (customs s)) \<and> (\<forall>c. allDataCache s = Some c \<longrightarrow> cacheOK c)"

text \<open>Two roots that share the prefix \<open>01\<close>; only the second mentions \<open>gjalle\<close>.\<close>

definition twoRoots :: "CustomsRecord list" where
  "twoRoots = [plainRow ''011'' ''Kuaj'', plainRow ''012'' ''Gjedhe te gjalle'']"



definition cycleA :: IdRecord where
  "cycleA = \<lparr>recId = 1, parentId = Some 2, idCode = ''01'', idDescription = ''Kafshe''\<rparr>"

definition cycleB :: IdRecord where
  "cycleB = \<lparr>recId = 2, parentId = Some 1, idCode = ''02'', idDescription = ''Mish''\<rparr>"

definition cyclicRows :: "IdRecord list" where
  "cyclicRows = [cycleA, cycleB]"

definition chainRows :: "IdRecord list" where
  "chainRows =
     [\<lparr>recId = 2, parentId = Some 1, idCode = ''0101'', idDescription = ''Kuaj''\<rparr>,
      \<lparr>recId = 1, parentId = None, idCode = ''01'', idDescription = ''Kafshe''\<rparr>,
      \<lparr>recId = 3, parentId = Some 2, idCode = ''010101'', idDescription = ''Kuaj race''\<rparr>]"

text \<open>
  For the hierarchy builder by parent identifiers: the row kept under an identifier,
  the parent a row is attached to, the identifiers attached below a parent in the
  order of the input, the object graph in closed form, the identifiers below a node
  at any depth, and parent links that descend along a rank.
\<close>

definition idRowAt :: "IdRecord list \<Rightarrow> int \<Rightarrow> IdRecord option" where
  "idRowAt list k = map_of (rev (map (\<lambda>r. (recId r, r)) list)) k"

definition idParent :: "IdRecord list \<Rightarrow> IdRecord \<Rightarrow> int option" where
  "idParent list r =
     (case parentId r of
        None \<Rightarrow> None
      | Some p \<Rightarrow> if p \<in> recId ` set list then Some p else None)"

definition idKids :: "IdRecord list \<Rightarrow> int option \<Rightarrow> int list" where
  "idKids list par = map recId (filter (\<lambda>r. idParent list r = par) list)"

definition idGraphOf :: "IdRecord list \<Rightarrow> IdNodeMap" where
  "idGraphOf list k =
     map_option
       (\<lambda>r. \<lparr>idNodeRow = r,
              idSubRows = array_sort (compareIdNodes (createIdNodes list)) (idKids list (Some k))\<rparr>)
       (idRowAt list k)"

inductive_set idDesc :: "IdRecord list \<Rightarrow> int \<Rightarrow> int set" for list :: "IdRecord list" and k :: int where
  child: "r \<in> set list \<Longrightarrow> idParent list r = Some k \<Longrightarrow> recId r \<in> idDesc list k"
| step: "c \<in> idDesc list k \<Longrightarrow> r \<in> set list \<Longrightarrow> idParent list r = Some c \<Longrightarrow> recId r \<in> idDesc list k"

definition idMembers :: "IdRecord list \<Rightarrow> int option \<Rightarrow> int set" where
  "idMembers list par = (case par of None \<Rightarrow> recId ` set list | Some k \<Rightarrow> idDesc list k)"

definition idRanked :: "(int \<Rightarrow> nat) \<Rightarrow> IdRecord list \<Rightarrow> bool" where
  "idRanked rank list \<longleftrightarrow>
     (\<forall>r\<in>set list. \<forall>p. idParent list r = Some p \<longrightarrow> rank p < rank (recId r))"

definition idNodeOK :: "IdRecord list \<Rightarrow> IdTreeNode \<Rightarrow> bool" where
  "idNodeOK list u \<longleftrightarrow>
     idRow u \<in> set list \<and>
     mset (map idRow (idChildren u)) =
       mset (filter (\<lambda>r. parentId r = Some (recId (idRow u))) list)"

definition idTreeSpec :: "IdRecord list \<Rightarrow> int \<Rightarrow> IdTreeNode \<Rightarrow> bool" where
  "idTreeSpec list k t \<longleftrightarrow>
     idRowAt list k = Some (idRow t) \<and>
     set (flattenIds t) = insert k (idDesc list k) \<and>
     distinct (flattenIds t) \<and>
     (\<forall>u\<in>set (allIdNodes t). idNodeOK list u)"

definition flattenIdForest :: "IdTreeNode list \<Rightarrow> int list" where
  "flattenIdForest forest = concat (map flattenIds forest)"

definition idForestNodes :: "IdTreeNode list \<Rightarrow> IdTreeNode list" where
  "idForestNodes forest = concat (map allIdNodes forest)"

text \<open>
  For the revision that answers from the table: the codes of the direct children
  read for a parent, a table that lacks the record \<open>01\<close> above \<open>0101\<close>, and a table of
  any size with distinct codes.
\<close>

definition childCodes :: "Env \<Rightarrow> CustomsRecord list \<Rightarrow> string \<Rightarrow> string set" where
  "childCodes env tbl k =
     (case getDirectChildrenRecords env tbl k of Inr rows \<Rightarrow> set (map code rows) | Inl e \<Rightarrow> {})"

definition orphanRows :: "CustomsRecord list" where
  "orphanRows =
     [plainRow ''0'' ''Kafshe'', plainRow ''0101'' ''Kuaj te gjalle'', plainRow ''02'' ''Mish'']"



section \<open>Properties of the hierarchy builder\<close>

lemma findParentCode_from_Some:
  "findParentCode_from i c S = Some p \<Longrightarrow>
     \<exists>j. 0 < j \<and> j \<le> i \<and> p = take j c \<and> p \<in> S \<and> (\<forall>j'. j < j' \<and> j' \<le> i \<longrightarrow> take j' c \<notin> S)"
proof (induction i)
  case 0
  then show ?case by simp
next
  case (Suc i)
  show ?case
  proof (cases "take (Suc i) c \<in> S")
    case True
    with Suc.prems have "p = take (Suc i) c" by simp
    with True show ?thesis by (intro exI[of _ "Suc i"]) auto
  next
    case False
    with Suc.prems have "findParentCode_from i c S = Some p" by simp
    from Suc.IH[OF this] obtain j where j: "0 < j" "j \<le> i" "p = take j c" "p \<in> S"
      "\<forall>j'. j < j' \<and> j' \<le> i \<longrightarrow> take j' c \<notin> S" by blast
    have "\<forall>j'. j < j' \<and> j' \<le> Suc i \<longrightarrow> take j' c \<notin> S"
      using j(5) False by (auto simp: le_Suc_eq)
    with j show ?thesis by (intro exI[of _ j]) auto
  qed
qed

lemma findParentCode_from_None:
  "findParentCode_from i c S = None \<Longrightarrow> 0 < j \<Longrightarrow> j \<le> i \<Longrightarrow> take j c \<notin> S"
  by (induction i) (auto simp: le_Suc_eq split: if_splits)

lemma ancestorOf_take:
  "ancestorOf k c \<longleftrightarrow> (\<exists>j. 0 < j \<and> j \<le> length c - 1 \<and> j < length c \<and> k = take j c)"
proof
  assume "ancestorOf k c"
  then have k: "k \<noteq> []" "prefix k c" "k \<noteq> c" by (auto simp: ancestorOf_def strict_prefix_def)
  then have "k = take (length k) c" "length k \<le> length c"
    by (auto simp: prefix_def)
  moreover have "length k \<noteq> length c" using k calculation by auto
  ultimately show "\<exists>j. 0 < j \<and> j \<le> length c - 1 \<and> j < length c \<and> k = take j c"
    using k(1) by (intro exI[of _ "length k"]) auto
next
  assume "\<exists>j. 0 < j \<and> j \<le> length c - 1 \<and> j < length c \<and> k = take j c"
  then obtain j where "0 < j" "j < length c" "k = take j c" by blast
  then show "ancestorOf k c"
    by (auto simp: ancestorOf_def strict_prefix_def take_is_prefix)
qed

lemma findParentCode_Some_iff:
  "findParentCode c S = Some p \<longleftrightarrow>
     p \<in> S \<and> ancestorOf p c \<and> (\<forall>q\<in>S. ancestorOf q c \<longrightarrow> length q \<le> length p)"
proof
  assume "findParentCode c S = Some p"
  then obtain j where j: "0 < j" "j \<le> length c - 1" "p = take j c" "p \<in> S"
      "\<forall>j'. j < j' \<and> j' \<le> length c - 1 \<longrightarrow> take j' c \<notin> S"
    unfolding findParentCode_def by (blast dest: findParentCode_from_Some)
  have "ancestorOf p c" using j by (auto simp: ancestorOf_take)
  moreover have "length q \<le> length p" if "q \<in> S" "ancestorOf q c" for q
  proof -
    from that(2) obtain i where i: "0 < i" "i \<le> length c - 1" "i < length c" "q = take i c"
      by (auto simp: ancestorOf_take)
    with j(5) that(1) have "\<not> j < i" by auto
    with i j show ?thesis by simp
  qed
  ultimately show "p \<in> S \<and> ancestorOf p c \<and> (\<forall>q\<in>S. ancestorOf q c \<longrightarrow> length q \<le> length p)"
    using j(4) by blast
next
  assume a: "p \<in> S \<and> ancestorOf p c \<and> (\<forall>q\<in>S. ancestorOf q c \<longrightarrow> length q \<le> length p)"
  then obtain i where i: "0 < i" "i \<le> length c - 1" "i < length c" "p = take i c"
    by (auto simp: ancestorOf_take)
  show "findParentCode c S = Some p"
  proof (cases "findParentCode c S")
    case None
    then have "take i c \<notin> S" using i
      unfolding findParentCode_def by (blast dest: findParentCode_from_None)
    with a i show ?thesis by simp
  next
    case (Some p')
    then obtain j where j: "0 < j" "j \<le> length c - 1" "p' = take j c" "p' \<in> S"
      "\<forall>j'. j < j' \<and> j' \<le> length c - 1 \<longrightarrow> take j' c \<notin> S"
      unfolding findParentCode_def by (blast dest: findParentCode_from_Some)
    have "ancestorOf p' c" using j by (auto simp: ancestorOf_take)
    with a j(4) have "length p' \<le> length p" by blast
    moreover have "\<not> j < i" using j(5) i a by auto
    ultimately have "i = j" using i j by simp
    with Some i j show ?thesis by simp
  qed
qed

lemma findParentCode_None_iff:
  "findParentCode c S = None \<longleftrightarrow> (\<forall>q\<in>S. \<not> ancestorOf q c)"
proof
  assume n: "findParentCode c S = None"
  show "\<forall>q\<in>S. \<not> ancestorOf q c"
  proof (intro ballI notI)
    fix q assume "q \<in> S" "ancestorOf q c"
    then obtain i where i: "0 < i" "i \<le> length c - 1" "q = take i c"
      by (auto simp: ancestorOf_take)
    with n have "take i c \<notin> S"
      unfolding findParentCode_def by (blast dest: findParentCode_from_None)
    with i \<open>q \<in> S\<close> show False by simp
  qed
next
  assume a: "\<forall>q\<in>S. \<not> ancestorOf q c"
  show "findParentCode c S = None"
  proof (cases "findParentCode c S")
    case (Some p)
    then have "p \<in> S \<and> ancestorOf p c" by (simp add: findParentCode_Some_iff)
    with a show ?thesis by blast
  qed simp
qed

lemma ancestorOf_trans: "ancestorOf a b \<Longrightarrow> ancestorOf b c \<Longrightarrow> ancestorOf a c"
  by (auto simp: ancestorOf_def)

lemma ancestorOf_irrefl: "\<not> ancestorOf a a"
  by (simp add: ancestorOf_def)

lemma ancestorOf_length: "ancestorOf a b \<Longrightarrow> length a < length b"
  by (auto simp: ancestorOf_def strict_prefix_def prefix_def)

lemma ancestorOf_linear:
  "ancestorOf a c \<Longrightarrow> ancestorOf b c \<Longrightarrow> a = b \<or> ancestorOf a b \<or> ancestorOf b a"
  unfolding ancestorOf_def strict_prefix_def
  using prefix_same_cases by blast

lemma rowAt_Some: "rowAt list k = Some r \<Longrightarrow> r \<in> set list \<and> code r = k"
  unfolding rowAt_def by (auto dest!: map_of_SomeD)

lemma rowAt_None: "rowAt list k = None \<longleftrightarrow> k \<notin> code ` set list"
  unfolding rowAt_def by (simp add: map_of_eq_None_iff image_image)

lemma rowAt_distinct:
  assumes "distinct (map code list)" "r \<in> set list"
  shows "rowAt list (code r) = Some r"
proof -
  have "distinct (map fst (rev (map (\<lambda>r. (code r, r)) list)))"
    using assms(1) by (simp add: rev_map[symmetric] comp_def)
  moreover have "(code r, r) \<in> set (rev (map (\<lambda>r. (code r, r)) list))"
    using assms(2) by auto
  ultimately show ?thesis unfolding rowAt_def by (rule map_of_is_SomeI)
qed

lemma createNodes_fold:
  "fold (\<lambda>r byCode. byCode(code r \<mapsto> \<lparr>nodeRow = r, subRows = []\<rparr>)) xs m0 k =
     (case map_of (rev (map (\<lambda>r. (code r, r)) xs)) k of
        None \<Rightarrow> m0 k
      | Some r \<Rightarrow> Some \<lparr>nodeRow = r, subRows = []\<rparr>)"
proof (induction xs arbitrary: m0)
  case Nil
  then show ?case by simp
next
  case (Cons x xs)
  let ?f = "\<lambda>r byCode. byCode(code r \<mapsto> \<lparr>nodeRow = r, subRows = []\<rparr>)"
  have "fold ?f (x # xs) m0 k = fold ?f xs (m0(code x \<mapsto> \<lparr>nodeRow = x, subRows = []\<rparr>)) k"
    by simp
  also have "\<dots> = (case map_of (rev (map (\<lambda>r. (code r, r)) xs)) k of
        None \<Rightarrow> (m0(code x \<mapsto> \<lparr>nodeRow = x, subRows = []\<rparr>)) k
      | Some r \<Rightarrow> Some \<lparr>nodeRow = r, subRows = []\<rparr>)"
    by (rule Cons.IH)
  also have "\<dots> = (case map_of (rev (map (\<lambda>r. (code r, r)) (x # xs))) k of
        None \<Rightarrow> m0 k
      | Some r \<Rightarrow> Some \<lparr>nodeRow = r, subRows = []\<rparr>)"
    by (simp add: map_of_append map_add_def split: option.splits)
  finally show ?case .
qed

lemma createNodes_eq:
  "createNodes list k = map_option (\<lambda>r. \<lparr>nodeRow = r, subRows = []\<rparr>) (rowAt list k)"
  unfolding createNodes_def rowAt_def createNodes_fold by (simp split: option.splits)

lemma attachRows_fold:
  assumes "\<And>p. p \<in> P \<Longrightarrow> m p \<noteq> None"
  shows "fold (attachRow P) xs (m, rs) =
     ((\<lambda>k. map_option
         (\<lambda>n. n\<lparr>subRows := subRows n @ map code (filter (\<lambda>r. findParentCode (code r) P = Some k) xs)\<rparr>)
         (m k)),
      rs @ map code (filter (\<lambda>r. findParentCode (code r) P = None) xs))"
  using assms
proof (induction xs arbitrary: m rs)
  case Nil
  show ?case by (simp add: option.map_ident)
next
  case (Cons x xs)
  show ?case
  proof (cases "findParentCode (code x) P")
    case None
    then have step: "attachRow P x (m, rs) = (m, rs @ [code x])"
      by (simp add: attachRow_def)
    show ?thesis
      using None by (simp add: step Cons.IH[OF Cons.prems])
  next
    case (Some p)
    then have "p \<in> P" by (simp add: findParentCode_Some_iff)
    then obtain n where n: "m p = Some n" using Cons.prems by blast
    have step: "attachRow P x (m, rs) = (m(p \<mapsto> n\<lparr>subRows := subRows n @ [code x]\<rparr>), rs)"
      using Some n by (simp add: attachRow_def)
    have dom': "\<And>q. q \<in> P \<Longrightarrow> (m(p \<mapsto> n\<lparr>subRows := subRows n @ [code x]\<rparr>)) q \<noteq> None"
      using Cons.prems by simp
    have "fold (attachRow P) (x # xs) (m, rs) =
        fold (attachRow P) xs (m(p \<mapsto> n\<lparr>subRows := subRows n @ [code x]\<rparr>), rs)"
      by (simp add: step)
    also note Cons.IH[OF dom']
    finally show ?thesis
      using Some n by (auto intro!: ext)
  qed
qed

lemma compareNodes_sortNode: "compareNodes (sortNode k m) = compareNodes m"
  by (intro ext) (auto simp: compareNodes_def sortNode_def split: option.splits)

lemma array_sort_short: "length xs \<le> 1 \<Longrightarrow> array_sort cmp xs = xs"
  by (cases xs) (auto simp: array_sort_def)

lemma sortNode_eq:
  "sortNode k m = (\<lambda>j. if j = k then map_option (\<lambda>n. n\<lparr>subRows := array_sort (compareNodes m) (subRows n)\<rparr>) (m j) else m j)"
  by (intro ext) (auto simp: sortNode_def array_sort_short not_less split: option.splits)

lemma sortAllNodes_eq:
  assumes "distinct ks"
  shows "sortAllNodes ks m =
    (\<lambda>j. if j \<in> set ks
          then map_option (\<lambda>n. n\<lparr>subRows := array_sort (compareNodes m) (subRows n)\<rparr>) (m j)
          else m j)"
  using assms
proof (induction ks arbitrary: m)
  case Nil
  show ?case by (simp add: sortAllNodes_def)
next
  case (Cons k ks)
  have d: "distinct ks" and nk: "k \<notin> set ks" using Cons.prems by auto
  have "sortAllNodes (k # ks) m = sortAllNodes ks (sortNode k m)"
    by (simp add: sortAllNodes_def)
  also have "\<dots> = (\<lambda>j. if j \<in> set ks
          then map_option (\<lambda>n. n\<lparr>subRows := array_sort (compareNodes m) (subRows n)\<rparr>) (sortNode k m j)
          else sortNode k m j)"
    by (simp add: Cons.IH[OF d] compareNodes_sortNode cong: if_cong)
  also have "\<dots> = (\<lambda>j. if j \<in> set (k # ks)
          then map_option (\<lambda>n. n\<lparr>subRows := array_sort (compareNodes m) (subRows n)\<rparr>) (m j)
          else m j)"
    using nk by (intro ext) (auto simp: sortNode_eq)
  finally show ?case .
qed

lemma set_insertionOrder: "set (insertionOrder ks) = set ks"
  by (simp add: insertionOrder_def)

lemma distinct_insertionOrder: "distinct (insertionOrder ks)"
  by (simp add: insertionOrder_def)

text \<open>Names of objects whose row carries the name as its code sort as the names do.\<close>

lemma compareNodes_le:
  assumes "\<And>k n. m k = Some n \<Longrightarrow> code (nodeRow n) = k" "m a \<noteq> None" "m b \<noteq> None"
  shows "compareNodes m a b \<le> 0 \<longleftrightarrow> a \<le> b"
proof -
  obtain x y where xy: "m a = Some x" "m b = Some y" using assms(2,3) by auto
  then have c: "code (nodeRow x) = a" "code (nodeRow y) = b" using assms(1) by auto
  show ?thesis
  proof (cases "a = b")
    case True
    with xy have "x = y" by simp
    then show ?thesis using xy True by (simp add: compareNodes_def sortChildren_def Let_def)
  next
    case False
    then show ?thesis using xy c by (auto simp: compareNodes_def sortChildren_def Let_def)
  qed
qed

lemma insort_cmp_insort:
  assumes "\<And>y. y \<in> set ys \<Longrightarrow> (cmp x y \<le> 0 \<longleftrightarrow> x \<le> y)"
  shows "insort_cmp cmp x ys = insort x (ys :: string list)"
  using assms by (induction ys) auto

lemma array_sort_sort:
  assumes "\<And>x y. x \<in> set xs \<Longrightarrow> y \<in> set xs \<Longrightarrow> (cmp x y \<le> 0 \<longleftrightarrow> x \<le> y)"
  shows "array_sort cmp xs = sort (xs :: string list)"
  using assms
proof (induction xs)
  case Nil
  show ?case by (simp add: array_sort_def)
next
  case (Cons x xs)
  have IH: "array_sort cmp xs = sort xs" using Cons by auto
  have "array_sort cmp (x # xs) = insort_cmp cmp x (array_sort cmp xs)"
    by (simp add: array_sort_def)
  also have "\<dots> = insort x (sort xs)"
    unfolding IH using Cons.prems by (intro insort_cmp_insort) auto
  finally show ?case by (simp add: sort_key_def)
qed

lemma set_kidCodes:
  "set (kidCodes list par) = {c \<in> code ` set list. parentIn list c = par}"
  by (auto simp: kidCodes_def)

lemma kidCodes_in: "c \<in> set (kidCodes list par) \<Longrightarrow> c \<in> code ` set list"
  by (simp add: set_kidCodes)

lemma distinct_kidCodes: "distinct (map code list) \<Longrightarrow> distinct (kidCodes list par)"
  by (simp add: kidCodes_def distinct_map_filter)

lemma buildGraph_eq: "buildGraph list = (kidCodes list None, graphOf list)"
proof -
  let ?P = "set (map code list)"
  let ?m0 = "createNodes list"
  let ?kids = "\<lambda>par. map code (filter (\<lambda>r. findParentCode (code r) ?P = par) list)"
  let ?m1 = "\<lambda>k. map_option (\<lambda>r. \<lparr>nodeRow = r, subRows = ?kids (Some k)\<rparr>) (rowAt list k)"
  have dom0: "\<And>p. p \<in> ?P \<Longrightarrow> ?m0 p \<noteq> None"
    by (simp add: createNodes_eq rowAt_None)
  have "attachRows ?P list ?m0 =
     ((\<lambda>k. map_option
         (\<lambda>n. n\<lparr>subRows := subRows n @ map code (filter (\<lambda>r. findParentCode (code r) ?P = Some k) list)\<rparr>)
         (?m0 k)),
      [] @ map code (filter (\<lambda>r. findParentCode (code r) ?P = None) list))"
    unfolding attachRows_def by (rule attachRows_fold[OF dom0])
  then have att: "attachRows ?P list ?m0 = (?m1, ?kids None)"
    by (auto simp: createNodes_eq option.map_comp comp_def intro!: ext)
  have code1: "\<And>k n. ?m1 k = Some n \<Longrightarrow> code (nodeRow n) = k"
    by (auto dest: rowAt_Some)
  have dom1: "\<And>c. c \<in> ?P \<Longrightarrow> ?m1 c \<noteq> None"
    by (simp add: rowAt_None)
  have srt: "array_sort (compareNodes ?m1) (?kids par) = sort (?kids par)" for par
  proof (rule array_sort_sort)
    fix x y assume "x \<in> set (?kids par)" "y \<in> set (?kids par)"
    then have "x \<in> ?P" "y \<in> ?P" by auto
    then have "?m1 x \<noteq> None" "?m1 y \<noteq> None" using dom1 by blast+
    then show "compareNodes ?m1 x y \<le> 0 \<longleftrightarrow> x \<le> y"
      using code1 by (intro compareNodes_le) blast+
  qed
  have m2: "sortAllNodes (insertionOrder (map code list)) ?m1 = graphOf list"
    unfolding sortAllNodes_eq[OF distinct_insertionOrder] set_insertionOrder
  proof (intro ext)
    fix j
    show "(if j \<in> set (map code list)
          then map_option (\<lambda>n. n\<lparr>subRows := array_sort (compareNodes ?m1) (subRows n)\<rparr>) (?m1 j)
          else ?m1 j) = graphOf list j"
    proof (cases "rowAt list j")
      case None
      then show ?thesis by (simp add: graphOf_def)
    next
      case (Some r)
      then have "j \<in> set (map code list)" using rowAt_None[of list j] by simp
      then show ?thesis
        using Some by (simp add: graphOf_def kidCodes_def parentIn_def srt del: set_map)
    qed
  qed
  have cmp2: "compareNodes (graphOf list) = compareNodes ?m1"
    by (intro ext) (auto simp: compareNodes_def graphOf_def split: option.splits)
  show ?thesis
    unfolding buildGraph_def Let_def att fst_conv snd_conv m2 cmp2 srt
    by (simp add: kidCodes_def parentIn_def)
qed

lemma those_list_map_Some:
  "those_list (map f xs) = Some ts \<longleftrightarrow> list_all2 (\<lambda>x t. f x = Some t) xs ts"
proof (induction xs arbitrary: ts)
  case Nil
  show ?case by auto
next
  case (Cons x xs)
  show ?case
  proof (cases "f x")
    case None
    then show ?thesis by (auto simp: list_all2_Cons1)
  next
    case (Some t)
    show ?thesis
    proof (cases "those_list (map f xs)")
      case None
      then have "\<And>zs. \<not> list_all2 (\<lambda>x t. f x = Some t) xs zs"
        using Cons.IH by simp
      then show ?thesis using Some None by (auto simp: list_all2_Cons1)
    next
      case (Some a)
      then have "\<And>zs. list_all2 (\<lambda>x t. f x = Some t) xs zs \<longleftrightarrow> zs = a"
        using Cons.IH[symmetric] by auto
      then show ?thesis using \<open>f x = Some t\<close> Some by (auto simp: list_all2_Cons1)
    qed
  qed
qed

lemma those_list_ex:
  assumes "\<And>x. x \<in> set xs \<Longrightarrow> \<exists>t. f x = Some t"
  shows "\<exists>ts. those_list (map f xs) = Some ts"
  using assms
proof (induction xs)
  case Nil
  show ?case by simp
next
  case (Cons x xs)
  then obtain t ts where "f x = Some t" "those_list (map f xs) = Some ts"
    by (metis list.set_intros(1,2))
  then show ?case by simp
qed

lemma finite_members: "finite (members list par)"
  by (simp add: members_def)

lemma parentIn_members:
  assumes "c \<in> code ` set list" "parentIn list c = par"
  shows "c \<in> members list par"
proof (cases par)
  case None
  then show ?thesis using assms by (simp add: members_def)
next
  case (Some p)
  then have "ancestorOf p c" using assms(2) by (simp add: parentIn_def findParentCode_Some_iff)
  then show ?thesis using assms(1) Some by (simp add: members_def)
qed

lemma parentIn_no_between:
  assumes "parentIn list c = par" "q \<in> code ` set list" "ancestorOf q c"
  shows "\<exists>p. par = Some p \<and> (q = p \<or> ancestorOf q p)"
proof (cases par)
  case None
  then have "\<forall>q\<in>set (map code list). \<not> ancestorOf q c"
    using assms(1) by (simp add: parentIn_def findParentCode_None_iff)
  then show ?thesis using assms(2,3) by auto
next
  case (Some p)
  then have p: "ancestorOf p c" "\<forall>q\<in>set (map code list). ancestorOf q c \<longrightarrow> length q \<le> length p"
    using assms(1) by (simp_all add: parentIn_def findParentCode_Some_iff)
  then have len: "length q \<le> length p" using assms(2,3) by auto
  from ancestorOf_linear[OF assms(3) p(1)] have "q = p \<or> ancestorOf q p \<or> ancestorOf p q" .
  then show ?thesis using len Some by (auto dest: ancestorOf_length)
qed

lemma members_kid_subset:
  assumes "k \<in> code ` set list" "parentIn list k = par"
  shows "members list (Some k) \<subset> members list par"
proof -
  have k: "k \<in> members list par" using assms by (rule parentIn_members)
  have "members list (Some k) \<subseteq> members list par"
  proof
    fix c assume "c \<in> members list (Some k)"
    then have c: "c \<in> code ` set list" "ancestorOf k c" by (simp_all add: members_def)
    show "c \<in> members list par"
    proof (cases par)
      case None
      then show ?thesis using c by (simp add: members_def)
    next
      case (Some p)
      then have "ancestorOf p k" using k by (simp add: members_def)
      then show ?thesis using c Some by (auto simp: members_def intro: ancestorOf_trans)
    qed
  qed
  moreover have "k \<notin> members list (Some k)" by (simp add: members_def ancestorOf_irrefl)
  ultimately show ?thesis using k by blast
qed

lemma members_kid_card:
  assumes "k \<in> code ` set list" "parentIn list k = par"
  shows "card (members list (Some k)) < card (members list par)"
  by (intro psubset_card_mono finite_members members_kid_subset assms)

lemma kids_disjoint:
  assumes "k1 \<in> code ` set list" "k2 \<in> code ` set list"
    "parentIn list k1 = par" "parentIn list k2 = par" "k1 \<noteq> k2"
  shows "insert k1 (members list (Some k1)) \<inter> insert k2 (members list (Some k2)) = {}"
proof -
  have no: "\<not> ancestorOf a b" if "a \<in> code ` set list" "parentIn list a = par" "parentIn list b = par" for a b
  proof
    assume ab: "ancestorOf a b"
    from parentIn_no_between[OF that(3) that(1) ab] obtain p where
      p: "par = Some p" "a = p \<or> ancestorOf a p" by blast
    then have "ancestorOf p a" using that(2) by (simp add: parentIn_def findParentCode_Some_iff)
    with p(2) show False
      using ancestorOf_length[of p a] ancestorOf_length[of a p] by (auto simp: ancestorOf_irrefl)
  qed
  have "False" if "c \<in> insert k1 (members list (Some k1))" "c \<in> insert k2 (members list (Some k2))" for c
  proof -
    from that have "(c = k1 \<or> ancestorOf k1 c)" "(c = k2 \<or> ancestorOf k2 c)"
      by (auto simp: members_def)
    then have "ancestorOf k1 k2 \<or> ancestorOf k2 k1"
      using assms(5) ancestorOf_linear[of k1 c k2] by auto
    then show False using no assms by blast
  qed
  then show ?thesis by blast
qed

lemma members_cover:
  assumes "parentOK list par" "c \<in> members list par"
  shows "\<exists>k\<in>code ` set list. parentIn list k = par \<and> c \<in> insert k (members list (Some k))"
proof -
  let ?A = "{q \<in> members list par. q = c \<or> ancestorOf q c}"
  have "c \<in> ?A" using assms(2) by simp
  then have "?A \<noteq> {}" by blast
  moreover have "finite ?A" using finite_members by simp
  ultimately obtain k where k: "k \<in> ?A" "\<And>q. q \<in> ?A \<Longrightarrow> length k \<le> length q"
    using ex_min_if_finite[of "length ` ?A"]
    by (metis (no_types, lifting) arg_min_least arg_min_if_finite(1))
  have kP: "k \<in> code ` set list" using k(1) by (simp add: members_def)
  have kc: "k = c \<or> ancestorOf k c" using k(1) by simp
  have cP: "c \<in> code ` set list" using assms(2) by (simp add: members_def)
  have "parentIn list k = par"
  proof (cases par)
    case None
    have "\<not> ancestorOf q k" if "q \<in> code ` set list" for q
    proof
      assume a: "ancestorOf q k"
      then have "ancestorOf q c" using kc by (auto intro: ancestorOf_trans)
      then have "q \<in> ?A" using that None by (simp add: members_def)
      from k(2)[OF this] a show False by (auto dest: ancestorOf_length)
    qed
    then show ?thesis using None by (simp add: parentIn_def findParentCode_None_iff)
  next
    case (Some p)
    then have p: "p \<in> code ` set list" using assms(1) by (simp add: parentOK_def)
    have pk: "ancestorOf p k" using k(1) Some by (simp add: members_def)
    have "length q \<le> length p" if "q \<in> code ` set list" "ancestorOf q k" for q
    proof (rule ccontr)
      assume "\<not> length q \<le> length p"
      then have "ancestorOf p q"
        using ancestorOf_linear[OF that(2) pk] by (auto dest: ancestorOf_length)
      moreover have "ancestorOf q c" using that(2) kc by (auto intro: ancestorOf_trans)
      ultimately have "q \<in> ?A" using that(1) Some by (simp add: members_def)
      from k(2)[OF this] that(2) show False by (auto dest: ancestorOf_length)
    qed
    then show ?thesis using Some p pk by (simp add: parentIn_def findParentCode_Some_iff)
  qed
  moreover have "c \<in> insert k (members list (Some k))"
    using kc cP by (auto simp: members_def)
  ultimately show ?thesis using kP by blast
qed

lemma members_eq_Union:
  assumes "parentOK list par"
  shows "members list par = (\<Union>k\<in>set (kidCodes list par). insert k (members list (Some k)))"
proof (intro equalityI subsetI)
  fix c assume "c \<in> members list par"
  from members_cover[OF assms this] show "c \<in> (\<Union>k\<in>set (kidCodes list par). insert k (members list (Some k)))"
    by (auto simp: set_kidCodes)
next
  fix c assume "c \<in> (\<Union>k\<in>set (kidCodes list par). insert k (members list (Some k)))"
  then obtain k where k: "k \<in> code ` set list" "parentIn list k = par" "c \<in> insert k (members list (Some k))"
    by (auto simp: set_kidCodes)
  then show "c \<in> members list par"
    using parentIn_members[OF k(1,2)] members_kid_subset[OF k(1,2)] by blast
qed

lemma treeSpec_code: "treeSpec list k t \<Longrightarrow> code (row t) = k"
  by (auto simp: treeSpec_def dest: rowAt_Some)

lemma forest_flatten:
  assumes "list_all2 (treeSpec list) ks ts" "distinct ks"
    "\<And>k1 k2. k1 \<in> set ks \<Longrightarrow> k2 \<in> set ks \<Longrightarrow> k1 \<noteq> k2 \<Longrightarrow>
        insert k1 (members list (Some k1)) \<inter> insert k2 (members list (Some k2)) = {}"
  shows "set (concat (map flattenCodes ts)) = (\<Union>k\<in>set ks. insert k (members list (Some k))) \<and>
         distinct (concat (map flattenCodes ts))"
  using assms
proof (induction rule: list_all2_induct)
  case Nil
  show ?case by simp
next
  case (Cons k ks t ts)
  have IH: "set (concat (map flattenCodes ts)) = (\<Union>k\<in>set ks. insert k (members list (Some k)))"
      "distinct (concat (map flattenCodes ts))"
    using Cons.IH Cons.prems by auto
  have t: "set (flattenCodes t) = insert k (members list (Some k))" "distinct (flattenCodes t)"
    using Cons.hyps(1) by (simp_all add: treeSpec_def)
  have "insert k (members list (Some k)) \<inter> insert k' (members list (Some k')) = {}"
    if "k' \<in> set ks" for k'
    using that Cons.prems by (intro Cons.prems(2)) auto
  then have disj: "set (flattenCodes t) \<inter> set (concat (map flattenCodes ts)) = {}"
    unfolding t(1) IH(1) by blast
  show ?case
    using t IH disj by auto
qed

lemma forest_rows:
  assumes "list_all2 (treeSpec list) ks ts"
  shows "map (\<lambda>t. Some (row t)) ts = map (rowAt list) ks"
  using assms by (induction rule: list_all2_induct) (auto simp: treeSpec_def)

lemma forest_nodes:
  assumes "list_all2 (treeSpec list) ks ts"
  shows "\<forall>u\<in>set (concat (map allNodes ts)). nodeOK list u"
  using assms by (induction rule: list_all2_induct) (auto simp: treeSpec_def)

lemma forest_ok:
  assumes d: "distinct (map code list)" and par: "parentOK list par"
    and trees: "\<And>k. k \<in> set (kidCodes list par) \<Longrightarrow> \<exists>t. f k = Some t \<and> treeSpec list k t"
  shows "\<exists>ts. those_list (map f (kidCodes list par)) = Some ts \<and>
      map (\<lambda>t. Some (row t)) ts = map (rowAt list) (kidCodes list par) \<and>
      set (concat (map flattenCodes ts)) = members list par \<and>
      distinct (concat (map flattenCodes ts)) \<and>
      (\<forall>u\<in>set (concat (map allNodes ts)). nodeOK list u)"
proof -
  let ?ks = "kidCodes list par"
  from those_list_ex[of ?ks f] trees obtain ts where ts: "those_list (map f ?ks) = Some ts"
    by blast
  then have "list_all2 (\<lambda>k t. f k = Some t) ?ks ts" by (simp add: those_list_map_Some)
  then have all2: "list_all2 (treeSpec list) ?ks ts"
  proof (rule list.rel_mono_strong)
    fix k t assume "k \<in> set ?ks" "t \<in> set ts" "f k = Some t"
    with trees[of k] show "treeSpec list k t" by auto
  qed
  have disj: "insert k1 (members list (Some k1)) \<inter> insert k2 (members list (Some k2)) = {}"
    if "k1 \<in> set ?ks" "k2 \<in> set ?ks" "k1 \<noteq> k2" for k1 k2
    using that by (intro kids_disjoint[of k1 list k2 par]) (auto simp: set_kidCodes)
  from forest_flatten[OF all2 distinct_kidCodes[OF d] disj]
  have "set (concat (map flattenCodes ts)) = members list par" "distinct (concat (map flattenCodes ts))"
    by (simp_all add: members_eq_Union[OF par])
  then show ?thesis
    using ts forest_rows[OF all2] forest_nodes[OF all2] by blast
qed

lemma tree_ok:
  assumes d: "distinct (map code list)"
  shows "k \<in> code ` set list \<Longrightarrow> card (members list (Some k)) < n \<Longrightarrow>
     \<exists>t. treeOf n (graphOf list) k = Some t \<and> treeSpec list k t"
proof (induction n arbitrary: k)
  case 0
  then show ?case by simp
next
  case (Suc n)
  from Suc.prems(1) obtain r where r: "rowAt list k = Some r"
    using rowAt_None[of list k] by auto
  have par: "parentOK list (Some k)" using Suc.prems(1) by (simp add: parentOK_def)
  have "\<exists>t. treeOf n (graphOf list) c = Some t \<and> treeSpec list c t"
    if "c \<in> set (kidCodes list (Some k))" for c
  proof -
    have c: "c \<in> code ` set list" "parentIn list c = Some k"
      using that by (simp_all add: set_kidCodes)
    from members_kid_card[OF c] Suc.prems(2) have "card (members list (Some c)) < n" by simp
    with c(1) show ?thesis by (rule Suc.IH)
  qed
  from forest_ok[OF d par this] obtain ts where ts:
    "those_list (map (treeOf n (graphOf list)) (kidCodes list (Some k))) = Some ts"
    "map (\<lambda>t. Some (row t)) ts = map (rowAt list) (kidCodes list (Some k))"
    "set (concat (map flattenCodes ts)) = members list (Some k)"
    "distinct (concat (map flattenCodes ts))"
    "\<forall>u\<in>set (concat (map allNodes ts)). nodeOK list u"
    by blast
  have code_r: "code r = k" using r by (auto dest: rowAt_Some)
  have t: "treeOf (Suc n) (graphOf list) k = Some (TreeNode r ts)"
    using r ts(1) by (simp add: graphOf_def)
  have "k \<notin> members list (Some k)" by (simp add: members_def ancestorOf_irrefl)
  then have "treeSpec list k (TreeNode r ts)"
    using r ts(2-5) code_r by (auto simp: treeSpec_def nodeOK_def)
  with t show ?case by blast
qed

lemma members_None: "members list None = code ` set list"
  by (auto simp: members_def)

lemma buildTree_ok:
  assumes d: "distinct (map code list)"
  shows "\<exists>ts. buildTreeFromList list = Some ts \<and>
      set (concat (map flattenCodes ts)) = code ` set list \<and>
      distinct (concat (map flattenCodes ts)) \<and>
      (\<forall>u\<in>set (concat (map allNodes ts)). nodeOK list u)"
proof -
  have "\<exists>t. treeOf (length list) (graphOf list) k = Some t \<and> treeSpec list k t"
    if "k \<in> set (kidCodes list None)" for k
  proof -
    have k: "k \<in> code ` set list" "parentIn list k = None"
      using that by (simp_all add: set_kidCodes)
    have "card (members list (Some k)) < card (members list None)"
      using k by (rule members_kid_card)
    also have "\<dots> \<le> length list"
      unfolding members_None by (metis card_length length_map set_map)
    finally show ?thesis using tree_ok[OF d k(1)] by blast
  qed
  from forest_ok[where par = None and f = "treeOf (length list) (graphOf list)", OF d _ this]
  show ?thesis
    unfolding buildTreeFromList_def buildGraph_eq Let_def fst_conv snd_conv
    by (auto simp: parentOK_def members_None)
qed

lemma nodeOK_children:
  assumes d: "distinct (map code list)" and ok: "nodeOK list u"
  shows "row u \<in> set list \<and>
     mset (map row (children u)) =
       mset (filter (\<lambda>r. findParentCode (code r) (set (map code list)) = Some (code (row u))) list)"
proof -
  let ?Q = "\<lambda>r. findParentCode (code r) (set (map code list)) = Some (code (row u))"
  let ?ks = "kidCodes list (Some (code (row u)))"
  have rows: "map (\<lambda>ch. Some (row ch)) (children u) = map (rowAt list) ?ks"
    using ok by (simp add: nodeOK_def)
  from arg_cong[OF rows, of "map the"]
  have "map row (children u) = map (the \<circ> rowAt list) ?ks"
    by (simp add: comp_def)
  then have "mset (map row (children u)) = mset (map (the \<circ> rowAt list) (map code (filter ?Q list)))"
    by (simp add: kidCodes_def parentIn_def multiset.map_comp del: set_map)
  also have "map (the \<circ> rowAt list) (map code (filter ?Q list)) = filter ?Q list"
    unfolding map_map by (intro map_idI) (simp add: rowAt_distinct[OF d])
  finally have "mset (map row (children u)) = mset (filter ?Q list)" .
  moreover have "row u \<in> set list" using ok by (auto simp: nodeOK_def dest: rowAt_Some)
  ultimately show ?thesis by blast
qed

lemma rowAt_perm:
  assumes "distinct (map code list)" "mset list' = mset list"
  shows "rowAt list' = rowAt list"
proof
  fix k
  have d': "distinct (map code list')"
    using assms by (metis mset_eq_imp_distinct_iff mset_map)
  have s: "set list' = set list" using assms(2) by (rule mset_eq_setD)
  show "rowAt list' k = rowAt list k"
  proof (cases "rowAt list k")
    case None
    then have "rowAt list' k = None" using s by (simp add: rowAt_None)
    then show ?thesis using None by simp
  next
    case (Some r)
    then have "r \<in> set list'" "code r = k" using s by (auto dest: rowAt_Some)
    then show ?thesis using rowAt_distinct[OF d'] Some by auto
  qed
qed

lemma kidCodes_perm:
  assumes "mset list' = mset list"
  shows "kidCodes list' par = kidCodes list par"
proof -
  have s: "set list' = set list" using assms by (rule mset_eq_setD)
  then have p: "parentIn list' = parentIn list" by (intro ext) (simp add: parentIn_def)
  have "mset (map code (filter (\<lambda>r. parentIn list (code r) = par) list')) =
        mset (map code (filter (\<lambda>r. parentIn list (code r) = par) list))"
    using assms by simp
  then show ?thesis
    unfolding kidCodes_def p by (metis properties_for_sort sorted_sort mset_sort)
qed

lemma buildTreeFromList_by_prefix:
  assumes "distinct (map code list)"
  shows "\<exists>forest. buildTreeFromList list = Some forest \<and>
     mset (flattenForest forest) = mset (map code list) \<and>
     (\<forall>u\<in>set (forestNodes forest).
        row u \<in> set list \<and>
        mset (map row (children u)) =
          mset (filter (\<lambda>r. findParentCode (code r) (set (map code list)) = Some (code (row u))) list))"
proof -
  from buildTree_ok[OF assms] obtain ts where ts: "buildTreeFromList list = Some ts"
    "set (concat (map flattenCodes ts)) = code ` set list"
    "distinct (concat (map flattenCodes ts))"
    "\<forall>u\<in>set (concat (map allNodes ts)). nodeOK list u"
    by blast
  have "mset (flattenForest ts) = mset (map code list)"
    unfolding flattenForest_def
    using ts(2,3) assms by (subst set_eq_iff_mset_eq_distinct[symmetric]) auto
  then show ?thesis
    using ts(1,4) nodeOK_children[OF assms] by (auto simp: forestNodes_def)
qed

section \<open>Properties of the hierarchy builder by parent identifiers\<close>

lemma mset_insort_cmp: "mset (insort_cmp cmp x xs) = add_mset x (mset xs)"
  by (induction xs) auto

lemma mset_array_sort: "mset (array_sort cmp xs) = mset xs"
  by (induction xs) (simp_all add: array_sort_def mset_insort_cmp)

lemma set_array_sort: "set (array_sort cmp xs) = set xs"
  by (metis mset_array_sort set_mset_mset)

lemma distinct_array_sort: "distinct (array_sort cmp xs) = distinct xs"
  by (metis mset_array_sort mset_eq_imp_distinct_iff)

lemma idRowAt_Some: "idRowAt list k = Some r \<Longrightarrow> r \<in> set list \<and> recId r = k"
  unfolding idRowAt_def by (auto dest!: map_of_SomeD)

lemma idRowAt_None: "idRowAt list k = None \<longleftrightarrow> k \<notin> recId ` set list"
  unfolding idRowAt_def by (simp add: map_of_eq_None_iff image_image)

lemma idRowAt_distinct:
  assumes "distinct (map recId list)" "r \<in> set list"
  shows "idRowAt list (recId r) = Some r"
proof -
  have "distinct (map fst (rev (map (\<lambda>r. (recId r, r)) list)))"
    using assms(1) by (simp add: rev_map[symmetric] comp_def)
  moreover have "(recId r, r) \<in> set (rev (map (\<lambda>r. (recId r, r)) list))"
    using assms(2) by auto
  ultimately show ?thesis unfolding idRowAt_def by (rule map_of_is_SomeI)
qed

lemma createIdNodes_fold:
  "fold (\<lambda>r byId. byId(recId r \<mapsto> \<lparr>idNodeRow = r, idSubRows = []\<rparr>)) xs m0 k =
     (case map_of (rev (map (\<lambda>r. (recId r, r)) xs)) k of
        None \<Rightarrow> m0 k
      | Some r \<Rightarrow> Some \<lparr>idNodeRow = r, idSubRows = []\<rparr>)"
proof (induction xs arbitrary: m0)
  case Nil
  then show ?case by simp
next
  case (Cons x xs)
  let ?f = "\<lambda>r byId. byId(recId r \<mapsto> \<lparr>idNodeRow = r, idSubRows = []\<rparr>)"
  have "fold ?f (x # xs) m0 k = fold ?f xs (m0(recId x \<mapsto> \<lparr>idNodeRow = x, idSubRows = []\<rparr>)) k"
    by simp
  also have "\<dots> = (case map_of (rev (map (\<lambda>r. (recId r, r)) xs)) k of
        None \<Rightarrow> (m0(recId x \<mapsto> \<lparr>idNodeRow = x, idSubRows = []\<rparr>)) k
      | Some r \<Rightarrow> Some \<lparr>idNodeRow = r, idSubRows = []\<rparr>)"
    by (rule Cons.IH)
  also have "\<dots> = (case map_of (rev (map (\<lambda>r. (recId r, r)) (x # xs))) k of
        None \<Rightarrow> m0 k
      | Some r \<Rightarrow> Some \<lparr>idNodeRow = r, idSubRows = []\<rparr>)"
    by (simp add: map_of_append map_add_def split: option.splits)
  finally show ?case .
qed

lemma createIdNodes_eq:
  "createIdNodes list k = map_option (\<lambda>r. \<lparr>idNodeRow = r, idSubRows = []\<rparr>) (idRowAt list k)"
  unfolding createIdNodes_def idRowAt_def createIdNodes_fold by (simp split: option.splits)

lemma attachIdRows_fold:
  assumes "\<And>r. r \<in> set xs \<Longrightarrow> m (recId r) \<noteq> None"
  shows "fold attachIdRow xs (m, rs) =
     ((\<lambda>k. map_option
         (\<lambda>n. n\<lparr>idSubRows := idSubRows n @
             map recId (filter (\<lambda>r. \<exists>p. parentId r = Some p \<and> p = k \<and> m p \<noteq> None) xs)\<rparr>)
         (m k)),
      rs @ map recId (filter (\<lambda>r. \<forall>p. parentId r = Some p \<longrightarrow> m p = None) xs))"
  using assms
proof (induction xs arbitrary: m rs)
  case Nil
  show ?case by (simp add: option.map_ident)
next
  case (Cons x xs)
  from Cons.prems obtain node where node: "m (recId x) = Some node" by fastforce
  show ?case
  proof (cases "\<exists>p. parentId x = Some p \<and> m p \<noteq> None")
    case False
    then have step: "attachIdRow x (m, rs) = (m, rs @ [recId x])"
      using node by (auto simp: attachIdRow_def split: option.splits)
    have "fold attachIdRow (x # xs) (m, rs) = fold attachIdRow xs (m, rs @ [recId x])"
      by (simp add: step)
    also note Cons.IH[of m "rs @ [recId x]"]
    finally show ?thesis using False Cons.prems by (auto intro!: ext)
  next
    case True
    then obtain p n where p: "parentId x = Some p" "m p = Some n" by auto
    let ?m = "m(p \<mapsto> n\<lparr>idSubRows := idSubRows n @ [recId x]\<rparr>)"
    have step: "attachIdRow x (m, rs) = (?m, rs)"
      using node p by (simp add: attachIdRow_def)
    have dom': "\<And>r. r \<in> set xs \<Longrightarrow> ?m (recId r) \<noteq> None"
      using Cons.prems by simp
    have same: "?m q = None \<longleftrightarrow> m q = None" for q using p by simp
    have "fold attachIdRow (x # xs) (m, rs) = fold attachIdRow xs (?m, rs)"
      by (simp add: step)
    also note Cons.IH[of ?m rs, OF dom']
    finally show ?thesis
      unfolding same using p by (auto intro!: ext)
  qed
qed

lemma compareIdNodes_cong:
  assumes "\<And>k. map_option idNodeRow (m k) = map_option idNodeRow (m' k)"
  shows "compareIdNodes m = compareIdNodes m'"
proof (intro ext)
  fix a b
  from assms[of a] assms[of b] show "compareIdNodes m a b = compareIdNodes m' a b"
    by (cases "m a"; cases "m' a"; cases "m b"; cases "m' b") (auto simp: compareIdNodes_def)
qed

lemma compareIdNodes_sortIdNode: "compareIdNodes (sortIdNode k m) = compareIdNodes m"
  by (rule compareIdNodes_cong) (auto simp: sortIdNode_def split: option.splits)

lemma sortIdNode_eq:
  "sortIdNode k m =
     (\<lambda>j. if j = k
          then map_option (\<lambda>n. n\<lparr>idSubRows := array_sort (compareIdNodes m) (idSubRows n)\<rparr>) (m j)
          else m j)"
  by (intro ext) (auto simp: sortIdNode_def array_sort_short not_less split: option.splits)

lemma fold_sortIdNode_eq:
  assumes "distinct ks"
  shows "fold sortIdNode ks m =
    (\<lambda>j. if j \<in> set ks
          then map_option (\<lambda>n. n\<lparr>idSubRows := array_sort (compareIdNodes m) (idSubRows n)\<rparr>) (m j)
          else m j)"
  using assms
proof (induction ks arbitrary: m)
  case Nil
  show ?case by simp
next
  case (Cons k ks)
  have d: "distinct ks" and nk: "k \<notin> set ks" using Cons.prems by auto
  have "fold sortIdNode (k # ks) m = fold sortIdNode ks (sortIdNode k m)"
    by simp
  also have "\<dots> = (\<lambda>j. if j \<in> set ks
          then map_option (\<lambda>n. n\<lparr>idSubRows := array_sort (compareIdNodes m) (idSubRows n)\<rparr>) (sortIdNode k m j)
          else sortIdNode k m j)"
    by (simp add: Cons.IH[OF d] compareIdNodes_sortIdNode cong: if_cong)
  also have "\<dots> = (\<lambda>j. if j \<in> set (k # ks)
          then map_option (\<lambda>n. n\<lparr>idSubRows := array_sort (compareIdNodes m) (idSubRows n)\<rparr>) (m j)
          else m j)"
    using nk by (intro ext) (auto simp: sortIdNode_eq)
  finally show ?case .
qed

lemma buildIdGraph_eq:
  "buildIdGraph list =
     (array_sort (compareIdNodes (createIdNodes list)) (idKids list None), idGraphOf list)"
proof -
  let ?m0 = "createIdNodes list"
  let ?m1 = "\<lambda>k. map_option (\<lambda>r. \<lparr>idNodeRow = r, idSubRows = idKids list (Some k)\<rparr>) (idRowAt list k)"
  have dom0: "\<And>r. r \<in> set list \<Longrightarrow> ?m0 (recId r) \<noteq> None"
    by (simp add: createIdNodes_eq idRowAt_None)
  have none: "?m0 p = None \<longleftrightarrow> p \<notin> recId ` set list" for p
    by (simp add: createIdNodes_eq idRowAt_None)
  have k1: "filter (\<lambda>r. \<exists>p. parentId r = Some p \<and> p = k \<and> ?m0 p \<noteq> None) list =
            filter (\<lambda>r. idParent list r = Some k) list" for k
    by (intro filter_cong refl) (auto simp: none idParent_def split: option.splits)
  have k2: "filter (\<lambda>r. \<forall>p. parentId r = Some p \<longrightarrow> ?m0 p = None) list =
            filter (\<lambda>r. idParent list r = None) list"
    by (intro filter_cong refl) (auto simp: none idParent_def split: option.splits)
  note attachIdRows_fold[of list ?m0 "[]", OF dom0]
  then have att: "fold attachIdRow list (?m0, []) = (?m1, idKids list None)"
    unfolding k1 k2
    by (auto simp: createIdNodes_eq idKids_def option.map_comp comp_def intro!: ext)
  have cmp1: "compareIdNodes ?m1 = compareIdNodes ?m0"
    by (rule compareIdNodes_cong) (simp add: createIdNodes_eq option.map_comp comp_def)
  have ks: "distinct (rev (remdups (rev (map recId list))))"
    "set (rev (remdups (rev (map recId list)))) = recId ` set list"
    by simp_all
  have m2: "fold sortIdNode (rev (remdups (rev (map recId list)))) ?m1 = idGraphOf list"
  proof (intro ext)
    fix j
    show "fold sortIdNode (rev (remdups (rev (map recId list)))) ?m1 j = idGraphOf list j"
    proof (cases "idRowAt list j")
      case None
      then show ?thesis
        unfolding fold_sortIdNode_eq[OF ks(1)] by (simp add: idGraphOf_def)
    next
      case (Some r)
      then have "j \<in> recId ` set list" using idRowAt_None[of list j] by auto
      then show ?thesis
        unfolding fold_sortIdNode_eq[OF ks(1)] ks(2) cmp1
        using Some by (simp add: idGraphOf_def)
    qed
  qed
  have cmp2: "compareIdNodes (idGraphOf list) = compareIdNodes ?m0"
    by (rule compareIdNodes_cong) (simp add: createIdNodes_eq idGraphOf_def option.map_comp comp_def)
  show ?thesis
    unfolding buildIdGraph_def Let_def att fst_conv snd_conv m2 cmp2 by simp
qed

lemma idParent_in: "idParent list r = Some p \<Longrightarrow> p \<in> recId ` set list \<and> parentId r = Some p"
  by (auto simp: idParent_def split: option.splits if_splits)

lemma idDesc_in: "c \<in> idDesc list k \<Longrightarrow> c \<in> recId ` set list"
  by (induction rule: idDesc.induct) auto

lemma finite_idDesc: "finite (idDesc list k)"
  by (rule finite_subset[of _ "recId ` set list"]) (auto dest: idDesc_in)

lemma idDesc_rank:
  assumes "idRanked rank list"
  shows "c \<in> idDesc list k \<Longrightarrow> rank k < rank c"
proof (induction rule: idDesc.induct)
  case (child r)
  then show ?case using assms by (auto simp: idRanked_def)
next
  case (step c r)
  then have "rank c < rank (recId r)" using assms by (auto simp: idRanked_def)
  with step.IH show ?case by simp
qed

lemma idDesc_trans: "c \<in> idDesc list k \<Longrightarrow> k \<in> idDesc list j \<Longrightarrow> c \<in> idDesc list j"
proof (induction rule: idDesc.induct)
  case (child r)
  then show ?case by (auto intro: idDesc.step)
next
  case (step c r)
  then show ?case by (auto intro: idDesc.step)
qed

lemma idDesc_parent:
  assumes "distinct (map recId list)" "c \<in> idDesc list k" "r \<in> set list" "recId r = c"
  shows "\<exists>p. idParent list r = Some p \<and> (p = k \<or> p \<in> idDesc list k)"
  using assms(2)
proof (cases rule: idDesc.cases)
  case (child r')
  then have "r' = r" using assms(1,3,4) by (auto simp: distinct_map dest: inj_onD)
  then show ?thesis using child by simp
next
  case (step c' r')
  then have "r' = r" using assms(1,3,4) by (auto simp: distinct_map dest: inj_onD)
  then show ?thesis using step by auto
qed

lemma idKids_set: "set (idKids list par) = {recId r | r. r \<in> set list \<and> idParent list r = par}"
  by (auto simp: idKids_def)

lemma idMembers_eq_Union:
  assumes "idRanked rank list"
  shows "idMembers list par = (\<Union>k\<in>set (idKids list par). insert k (idDesc list k))"
proof (intro equalityI subsetI)
  fix x assume x: "x \<in> idMembers list par"
  show "x \<in> (\<Union>k\<in>set (idKids list par). insert k (idDesc list k))"
  proof (cases par)
    case (Some k0)
    with x have "x \<in> idDesc list k0" by (simp add: idMembers_def)
    then show ?thesis unfolding Some
    proof (induction rule: idDesc.induct)
      case (child r)
      then show ?case by (auto simp: idKids_set)
    next
      case (step c r)
      then obtain k where k: "k \<in> set (idKids list (Some k0))" "c \<in> insert k (idDesc list k)"
        by auto
      then have "recId r \<in> idDesc list k"
        using step.hyps by (auto intro: idDesc.child idDesc.step)
      with k(1) show ?case by auto
    qed
  next
    case None
    with x have "x \<in> recId ` set list" by (simp add: idMembers_def)
    then show ?thesis unfolding None
    proof (induction x rule: measure_induct_rule[where f = rank])
      case (less x)
      then obtain r where r: "r \<in> set list" "recId r = x" by auto
      show ?case
      proof (cases "idParent list r")
        case None
        then show ?thesis using r by (auto simp: idKids_set)
      next
        case (Some p)
        then have "p \<in> recId ` set list" "rank p < rank x"
          using r assms by (auto simp: idRanked_def dest: idParent_in)
        from less.IH[OF this(2,1)] obtain k where
          k: "k \<in> set (idKids list None)" "p \<in> insert k (idDesc list k)" by auto
        then have "x \<in> idDesc list k"
          using r Some by (auto intro: idDesc.child idDesc.step)
        with k(1) show ?thesis by auto
      qed
    qed
  qed
next
  fix x assume "x \<in> (\<Union>k\<in>set (idKids list par). insert k (idDesc list k))"
  then obtain k where k: "k \<in> set (idKids list par)" "x = k \<or> x \<in> idDesc list k" by auto
  then obtain r where r: "r \<in> set list" "recId r = k" "idParent list r = par"
    by (auto simp: idKids_set)
  show "x \<in> idMembers list par"
  proof (cases par)
    case None
    then show ?thesis using k r by (auto simp: idMembers_def dest: idDesc_in)
  next
    case (Some k0)
    then have "k \<in> idDesc list k0" using r by (auto intro: idDesc.child)
    then show ?thesis using k(2) Some by (auto simp: idMembers_def intro: idDesc_trans)
  qed
qed

lemma idKids_disjoint:
  assumes d: "distinct (map recId list)" and rk: "idRanked rank list"
    and k1: "k1 \<in> set (idKids list par)" and k2: "k2 \<in> set (idKids list par)" and ne: "k1 \<noteq> k2"
  shows "insert k1 (idDesc list k1) \<inter> insert k2 (idDesc list k2) = {}"
proof -
  from k1 obtain r1 where r1: "r1 \<in> set list" "recId r1 = k1" "idParent list r1 = par"
    by (auto simp: idKids_set)
  from k2 obtain r2 where r2: "r2 \<in> set list" "recId r2 = k2" "idParent list r2 = par"
    by (auto simp: idKids_set)
  have top: "a \<notin> idDesc list b"
    if "ra \<in> set list" "recId ra = a" "idParent list ra = par"
       "rb \<in> set list" "recId rb = b" "idParent list rb = par" for a b ra rb
  proof
    assume "a \<in> idDesc list b"
    from idDesc_parent[OF d this that(1,2)] that(3) obtain p where
      p: "par = Some p" "p = b \<or> p \<in> idDesc list b" by auto
    then have "rank p < rank b" using rk that(4,5,6) by (auto simp: idRanked_def)
    moreover have "rank b \<le> rank p" using p(2) idDesc_rank[OF rk, of p b] by auto
    ultimately show False by simp
  qed
  have "\<not> (x \<in> insert k1 (idDesc list k1) \<and> x \<in> insert k2 (idDesc list k2))" for x
  proof (induction x rule: measure_induct_rule[where f = rank])
    case (less x)
    show ?case
    proof
      assume a: "x \<in> insert k1 (idDesc list k1) \<and> x \<in> insert k2 (idDesc list k2)"
      show False
      proof (cases "x = k1 \<or> x = k2")
        case True
        then show False using a ne top[OF r1 r2] top[OF r2 r1] by auto
      next
        case False
        with a have x: "x \<in> idDesc list k1" "x \<in> idDesc list k2" by auto
        then obtain r where r: "r \<in> set list" "recId r = x" by (auto dest!: idDesc_in)
        from idDesc_parent[OF d x(1) r] idDesc_parent[OF d x(2) r] obtain p where
          p: "idParent list r = Some p" "p = k1 \<or> p \<in> idDesc list k1" "p = k2 \<or> p \<in> idDesc list k2"
          by auto
        then have "rank p < rank x" using rk r by (auto simp: idRanked_def)
        from less.IH[OF this] p(2,3) show False by auto
      qed
    qed
  qed
  then show ?thesis by blast
qed

lemma idDesc_kid_card:
  assumes rk: "idRanked rank list" and k: "k \<in> set (idKids list par)"
  shows "card (idDesc list k) < card (idMembers list par)"
proof -
  have sub: "insert k (idDesc list k) \<subseteq> idMembers list par"
    unfolding idMembers_eq_Union[OF rk] using k by blast
  have "k \<notin> idDesc list k" using idDesc_rank[OF rk, of k k] by auto
  then have "idDesc list k \<subset> idMembers list par" using sub by blast
  moreover have "finite (idMembers list par)"
    by (cases par) (simp_all add: idMembers_def finite_idDesc)
  ultimately show ?thesis by (rule psubset_card_mono[rotated])
qed

lemma idForest_flatten:
  assumes "list_all2 (idTreeSpec list) ks ts" "distinct ks"
    "\<And>k1 k2. k1 \<in> set ks \<Longrightarrow> k2 \<in> set ks \<Longrightarrow> k1 \<noteq> k2 \<Longrightarrow>
        insert k1 (idDesc list k1) \<inter> insert k2 (idDesc list k2) = {}"
  shows "set (concat (map flattenIds ts)) = (\<Union>k\<in>set ks. insert k (idDesc list k)) \<and>
         distinct (concat (map flattenIds ts))"
  using assms
proof (induction rule: list_all2_induct)
  case Nil
  show ?case by simp
next
  case (Cons k ks t ts)
  have IH: "set (concat (map flattenIds ts)) = (\<Union>k\<in>set ks. insert k (idDesc list k))"
      "distinct (concat (map flattenIds ts))"
    using Cons.IH Cons.prems by auto
  have t: "set (flattenIds t) = insert k (idDesc list k)" "distinct (flattenIds t)"
    using Cons.hyps(1) by (simp_all add: idTreeSpec_def)
  have "insert k (idDesc list k) \<inter> insert k' (idDesc list k') = {}"
    if "k' \<in> set ks" for k'
    using that Cons.prems by (intro Cons.prems(2)) auto
  then have disj: "set (flattenIds t) \<inter> set (concat (map flattenIds ts)) = {}"
    unfolding t(1) IH(1) by blast
  show ?case
    using t IH disj by auto
qed

lemma idForest_rows:
  assumes "list_all2 (idTreeSpec list) ks ts"
  shows "map (\<lambda>t. Some (idRow t)) ts = map (idRowAt list) ks"
  using assms by (induction rule: list_all2_induct) (auto simp: idTreeSpec_def)

lemma idForest_nodes:
  assumes "list_all2 (idTreeSpec list) ks ts"
  shows "\<forall>u\<in>set (concat (map allIdNodes ts)). idNodeOK list u"
  using assms by (induction rule: list_all2_induct) (auto simp: idTreeSpec_def)

lemma idForest_ok:
  assumes d: "distinct (map recId list)" and rk: "idRanked rank list"
    and ks: "mset ks = mset (idKids list par)"
    and trees: "\<And>k. k \<in> set ks \<Longrightarrow> \<exists>t. f k = Some t \<and> idTreeSpec list k t"
  shows "\<exists>ts. those_list (map f ks) = Some ts \<and>
      map (\<lambda>t. Some (idRow t)) ts = map (idRowAt list) ks \<and>
      set (concat (map flattenIds ts)) = idMembers list par \<and>
      distinct (concat (map flattenIds ts)) \<and>
      (\<forall>u\<in>set (concat (map allIdNodes ts)). idNodeOK list u)"
proof -
  from those_list_ex[of ks f] trees obtain ts where ts: "those_list (map f ks) = Some ts"
    by blast
  then have "list_all2 (\<lambda>k t. f k = Some t) ks ts" by (simp add: those_list_map_Some)
  then have all2: "list_all2 (idTreeSpec list) ks ts"
  proof (rule list.rel_mono_strong)
    fix k t assume "k \<in> set ks" "t \<in> set ts" "f k = Some t"
    with trees[of k] show "idTreeSpec list k t" by auto
  qed
  have sk: "set ks = set (idKids list par)" using ks by (rule mset_eq_setD)
  have "distinct (idKids list par)"
    unfolding idKids_def using d by (simp add: distinct_map_filter)
  then have dk: "distinct ks" using ks by (metis mset_eq_imp_distinct_iff)
  have disj: "insert k1 (idDesc list k1) \<inter> insert k2 (idDesc list k2) = {}"
    if "k1 \<in> set ks" "k2 \<in> set ks" "k1 \<noteq> k2" for k1 k2
    using that sk by (intro idKids_disjoint[OF d rk, of k1 par k2]) auto
  from idForest_flatten[OF all2 dk disj]
  have "set (concat (map flattenIds ts)) = idMembers list par" "distinct (concat (map flattenIds ts))"
    by (simp_all add: idMembers_eq_Union[OF rk] sk)
  then show ?thesis
    using ts idForest_rows[OF all2] idForest_nodes[OF all2] by blast
qed

lemma idKids_rows:
  assumes d: "distinct (map recId list)" and k: "k \<in> recId ` set list"
    and ks: "mset ks = mset (idKids list (Some k))"
    and rows: "map (\<lambda>t. Some (idRow t)) ts = map (idRowAt list) ks"
  shows "mset (map idRow ts) = mset (filter (\<lambda>r. parentId r = Some k) list)"
proof -
  have f: "filter (\<lambda>r. idParent list r = Some k) list = filter (\<lambda>r. parentId r = Some k) list"
    using k by (intro filter_cong refl) (auto simp: idParent_def split: option.splits)
  from arg_cong[OF rows, of "map the"]
  have "map idRow ts = map (the \<circ> idRowAt list) ks" by (simp add: comp_def)
  then have "mset (map idRow ts) = image_mset (the \<circ> idRowAt list) (mset ks)" by simp
  also have "\<dots> = mset (map (the \<circ> idRowAt list) (map recId (filter (\<lambda>r. parentId r = Some k) list)))"
    unfolding ks idKids_def f by (simp add: multiset.map_comp)
  also have "map (the \<circ> idRowAt list) (map recId (filter (\<lambda>r. parentId r = Some k) list)) =
      filter (\<lambda>r. parentId r = Some k) list"
    unfolding map_map by (intro map_idI) (simp add: idRowAt_distinct[OF d])
  finally show ?thesis .
qed

lemma idTree_ok:
  assumes d: "distinct (map recId list)" and rk: "idRanked rank list"
  shows "k \<in> recId ` set list \<Longrightarrow> card (idDesc list k) < n \<Longrightarrow>
     \<exists>t. idTreeOf n (idGraphOf list) k = Some t \<and> idTreeSpec list k t"
proof (induction n arbitrary: k)
  case 0
  then show ?case by simp
next
  case (Suc n)
  from Suc.prems(1) obtain r where r: "idRowAt list k = Some r"
    using idRowAt_None[of list k] by auto
  let ?ks = "array_sort (compareIdNodes (createIdNodes list)) (idKids list (Some k))"
  have ks: "mset ?ks = mset (idKids list (Some k))" by (rule mset_array_sort)
  have "\<exists>t. idTreeOf n (idGraphOf list) c = Some t \<and> idTreeSpec list c t"
    if "c \<in> set ?ks" for c
  proof -
    have c: "c \<in> set (idKids list (Some k))" using that by (simp add: set_array_sort)
    then have cin: "c \<in> recId ` set list" by (auto simp: idKids_set)
    from idDesc_kid_card[OF rk c] Suc.prems(2) have "card (idDesc list c) < n"
      by (simp add: idMembers_def)
    with cin show ?thesis by (rule Suc.IH)
  qed
  from idForest_ok[OF d rk ks this] obtain ts where ts:
    "those_list (map (idTreeOf n (idGraphOf list)) ?ks) = Some ts"
    "map (\<lambda>t. Some (idRow t)) ts = map (idRowAt list) ?ks"
    "set (concat (map flattenIds ts)) = idMembers list (Some k)"
    "distinct (concat (map flattenIds ts))"
    "\<forall>u\<in>set (concat (map allIdNodes ts)). idNodeOK list u"
    by blast
  have rr: "r \<in> set list" "recId r = k" using r by (auto dest: idRowAt_Some)
  have t: "idTreeOf (Suc n) (idGraphOf list) k = Some (IdTreeNode r ts)"
    using r ts(1) by (simp add: idGraphOf_def)
  have "k \<notin> idDesc list k" using idDesc_rank[OF rk, of k k] by auto
  moreover have "idNodeOK list (IdTreeNode r ts)"
    using idKids_rows[OF d Suc.prems(1) ks ts(2)] rr by (simp add: idNodeOK_def)
  ultimately have "idTreeSpec list k (IdTreeNode r ts)"
    using r ts(3-5) rr by (auto simp: idTreeSpec_def idMembers_def)
  with t show ?case by blast
qed

lemma buildTreeFromIdList_ok:
  assumes d: "distinct (map recId list)" and rk: "idRanked rank list"
  shows "\<exists>forest. buildTreeFromIdList list = Some forest \<and>
     mset (flattenIdForest forest) = mset (map recId list) \<and>
     (\<forall>u\<in>set (idForestNodes forest).
        idRow u \<in> set list \<and>
        mset (map idRow (idChildren u)) =
          mset (filter (\<lambda>r. parentId r = Some (recId (idRow u))) list))"
proof -
  let ?ks = "array_sort (compareIdNodes (createIdNodes list)) (idKids list None)"
  have ks: "mset ?ks = mset (idKids list None)" by (rule mset_array_sort)
  have "\<exists>t. idTreeOf (length list) (idGraphOf list) k = Some t \<and> idTreeSpec list k t"
    if "k \<in> set ?ks" for k
  proof -
    have k: "k \<in> set (idKids list None)" using that by (simp add: set_array_sort)
    then have kin: "k \<in> recId ` set list" by (auto simp: idKids_set)
    have "card (idDesc list k) < card (idMembers list None)"
      using rk k by (rule idDesc_kid_card)
    also have "\<dots> \<le> length list"
      by (simp add: idMembers_def) (metis card_length length_map set_map)
    finally show ?thesis using idTree_ok[OF d rk kin] by blast
  qed
  from idForest_ok[OF d rk ks this] obtain ts where ts:
    "those_list (map (idTreeOf (length list) (idGraphOf list)) ?ks) = Some ts"
    "set (concat (map flattenIds ts)) = idMembers list None"
    "distinct (concat (map flattenIds ts))"
    "\<forall>u\<in>set (concat (map allIdNodes ts)). idNodeOK list u"
    by blast
  have b: "buildTreeFromIdList list = Some ts"
    using ts(1) by (simp add: buildTreeFromIdList_def buildIdGraph_eq)
  have "mset (flattenIdForest ts) = mset (map recId list)"
    unfolding flattenIdForest_def
    using ts(2,3) d by (subst set_eq_iff_mset_eq_distinct[symmetric]) (auto simp: idMembers_def)
  then show ?thesis
    using b ts(4) by (auto simp: idForestNodes_def idNodeOK_def)
qed

section \<open>Properties of \<open>initializeData\<close>\<close>









section \<open>Properties of the materialized cache\<close>

lemma insertionOrder_snoc:
  "insertionOrder (xs @ [x]) = (if x \<in> set xs then insertionOrder xs else insertionOrder xs @ [x])"
  by (simp add: insertionOrder_def)

lemma findRoot_eq:
  assumes "rc = (\<lambda>k. if k \<in> K then Some (rootOf S k) else None)"
  shows "findRoot S c rc = (rootOf S c, (\<lambda>k. if k \<in> insert c K then Some (rootOf S k) else None))"
  using assms by (auto simp: findRoot_def rootOf_def Let_def fun_eq_iff)

lemma bucketRow_inv:
  assumes "loopInv S seen st"
  shows "loopInv S (seen @ [r]) (bucketRow S r st)"
proof -
  let ?rt = "rootOf S (code r)"
  let ?r' = "r\<lparr>rootCode := Some ?rt\<rparr>"
  from assms have inv:
    "loopRootCache st = (\<lambda>k. if k \<in> code ` set seen then Some (rootOf S k) else None)"
    "loopRows st = map (setRoot S) seen"
    "loopRootOrder st = insertionOrder (map (\<lambda>r. rootOf S (code r)) seen)"
    "loopByRootCode st = (\<lambda>rt. if rt \<in> rootsSeen S seen then Some (bucketOf S seen rt) else None)"
    by (simp_all add: loopInv_def)
  have fr: "findRoot S (code r) (loopRootCache st) =
      (?rt, (\<lambda>k. if k \<in> code ` set (seen @ [r]) then Some (rootOf S k) else None))"
    using findRoot_eq[OF inv(1), of "code r"] by simp
  have sr: "setRoot S r = ?r'" by (simp add: setRoot_def)
  have bk: "bucketOf S (seen @ [r]) rt = (if rt = ?rt then bucketOf S seen rt @ [?r'] else bucketOf S seen rt)" for rt
    by (simp add: bucketOf_def sr)
  have rs: "rootsSeen S (seen @ [r]) = insert ?rt (rootsSeen S seen)"
    by (auto simp: rootsSeen_def)
  have seen_set: "?rt \<in> set (map (\<lambda>r. rootOf S (code r)) seen) \<longleftrightarrow> ?rt \<in> rootsSeen S seen"
    by (auto simp: rootsSeen_def)
  show ?thesis
  proof (cases "?rt \<in> rootsSeen S seen")
    case True
    then have "loopByRootCode st ?rt = Some (bucketOf S seen ?rt)" by (simp add: inv(4))
    then have step: "bucketRow S r st =
        st\<lparr>loopRootCache := (\<lambda>k. if k \<in> code ` set (seen @ [r]) then Some (rootOf S k) else None),
           loopByRootCode := (loopByRootCode st)(?rt \<mapsto> bucketOf S seen ?rt @ [?r']),
           loopRows := loopRows st @ [?r']\<rparr>"
      by (simp add: bucketRow_def fr Let_def)
    show ?thesis
      unfolding loopInv_def step
      using True seen_set
      by (auto simp: inv sr bk rs insertionOrder_snoc fun_eq_iff simp del: set_append)
  next
    case False
    then have "loopByRootCode st ?rt = None" by (simp add: inv(4))
    then have step: "bucketRow S r st =
        st\<lparr>loopRootCache := (\<lambda>k. if k \<in> code ` set (seen @ [r]) then Some (rootOf S k) else None),
           loopByRootCode := (loopByRootCode st)(?rt \<mapsto> [?r']),
           loopRootOrder := loopRootOrder st @ [?rt],
           loopRows := loopRows st @ [?r']\<rparr>"
      by (simp add: bucketRow_def fr Let_def)
    have "rootOf S (code x) \<noteq> ?rt" if "x \<in> set seen" for x
      using False that unfolding rootsSeen_def by (metis imageI)
    then have empty: "bucketOf S seen ?rt = []"
      by (simp add: bucketOf_def setRoot_def filter_empty_conv)
    show ?thesis
      unfolding loopInv_def step
      using False seen_set empty
      by (auto simp: inv sr bk rs insertionOrder_snoc fun_eq_iff simp del: set_append)
  qed
qed

lemma fold_bucketRow_inv:
  "loopInv S seen st \<Longrightarrow> loopInv S (seen @ xs) (fold (bucketRow S) xs st)"
proof (induction xs arbitrary: seen st)
  case Nil
  then show ?case by simp
next
  case (Cons x xs)
  from Cons.IH[OF bucketRow_inv[OF Cons.prems, of x]] show ?case by simp
qed

lemma array_sort_compareCode: "array_sort compareCode rows = sort_key code rows"
proof -
  have "insort_cmp compareCode x ys = insort_key code x ys" for x ys
    by (induction ys) (auto simp: compareCode_def)
  then show ?thesis
    by (induction rows) (simp_all add: array_sort_def sort_key_def)
qed

lemma buildCachedData_eq:
  "buildCachedData rows =
     (let S = set (map code rows); cloned = sort_key code rows in
      \<lparr>cache = map (setRoot S) cloned,
       byCode = mapFromEntries (map (\<lambda>r. (code r, r)) (map (setRoot S) cloned)),
       byRootCode = (\<lambda>rt. if rt \<in> rootsSeen S cloned then Some (bucketOf S cloned rt) else None),
       rootOrder = insertionOrder (map (\<lambda>r. rootOf S (code r)) cloned)\<rparr>)"
proof -
  let ?S = "set (map code rows)"
  let ?cloned = "sort_key code rows"
  let ?st0 = "\<lparr>loopRootCache = Map.empty, loopByRootCode = Map.empty,
                  loopRootOrder = [], loopRows = []\<rparr>"
  have "loopInv ?S [] ?st0"
    by (simp add: loopInv_def insertionOrder_def rootsSeen_def)
  from fold_bucketRow_inv[OF this, of ?cloned]
  have "loopInv ?S ?cloned (fold (bucketRow ?S) ?cloned ?st0)" by simp
  moreover have "set (map code ?cloned) = ?S" by simp
  ultimately show ?thesis
    unfolding buildCachedData_def array_sort_compareCode Let_def
    by (simp add: loopInv_def del: set_map)
qed




lemma code_setRoot [simp]: "code (setRoot S r) = code r"
  by (simp add: setRoot_def)







section \<open>Properties of \<open>searchByFields\<close>\<close>

lemma code_hlRow [simp]: "code (hlRow hl r) = code r"
  by (simp add: hlRow_def)

lemma pushBucket_eq:
  "length results < max 1 n \<Longrightarrow>
     pushBucket hl n bucket results =
       (take (max 1 n) (results @ map (hlRow hl) bucket),
        max 1 n \<le> length results + length bucket)"
proof (induction bucket arbitrary: results)
  case Nil
  then show ?case by (auto simp: max_def split: if_splits)
next
  case (Cons r bucket)
  let ?results' = "results @ [hlRow hl r]"
  show ?case
  proof (cases "n \<le> length ?results'")
    case True
    with Cons.prems have "max 1 n = length results + 1" by auto
    then show ?thesis using True by (simp add: hlRow_def Let_def)
  next
    case False
    then have "length ?results' < max 1 n" by simp
    from Cons.IH[OF this] False show ?thesis
      by (simp add: hlRow_def Let_def)
  qed
qed

lemma emitted_Nil [simp]: "emitted c M [] = []"
  by (simp add: emitted_def)

lemma emitted_Cons:
  "emitted c M (rt # roots) =
     (if rt \<in> M \<and> byRootCode c rt \<noteq> None then the (byRootCode c rt) else []) @ emitted c M roots"
  by (auto simp: emitted_def)

lemma pushRoots_eq:
  "length results < max 1 n \<Longrightarrow>
     pushRoots c M hl n roots results =
       take (max 1 n) (results @ map (hlRow hl) (emitted c M roots))"
proof (induction roots arbitrary: results)
  case Nil
  then show ?case by simp
next
  case (Cons rt roots)
  show ?case
  proof (cases "rt \<in> M \<and> byRootCode c rt \<noteq> None")
    case False
    then show ?thesis using Cons.IH[OF Cons.prems]
      by (auto simp: emitted_Cons)
  next
    case True
    then obtain bucket where b: "byRootCode c rt = Some bucket" by auto
    note pb = pushBucket_eq[OF Cons.prems, of hl bucket]
    have em: "results @ map (hlRow hl) (emitted c M (rt # roots)) =
        (results @ map (hlRow hl) bucket) @ map (hlRow hl) (emitted c M roots)"
      using True b by (simp add: emitted_Cons)
    show ?thesis
    proof (cases "max 1 n \<le> length results + length bucket")
      case full: True
      then have "pushBucket hl n bucket results =
          (take (max 1 n) (results @ map (hlRow hl) bucket), True)"
        using pb by simp
      then have "pushRoots c M hl n (rt # roots) results =
          take (max 1 n) (results @ map (hlRow hl) bucket)"
        using True b by simp
      also have "\<dots> = take (max 1 n) ((results @ map (hlRow hl) bucket) @ map (hlRow hl) (emitted c M roots))"
        using full by simp
      finally show ?thesis unfolding em .
    next
      case notfull: False
      then have short: "length (results @ map (hlRow hl) bucket) < max 1 n"
        by (auto simp: max_def split: if_splits)
      then have "take (max 1 n) (results @ map (hlRow hl) bucket) = results @ map (hlRow hl) bucket"
        by (intro take_all) simp
      then have "pushBucket hl n bucket results = (results @ map (hlRow hl) bucket, False)"
        using pb notfull by simp
      then have "pushRoots c M hl n (rt # roots) results =
          pushRoots c M hl n roots (results @ map (hlRow hl) bucket)"
        using True b by simp
      also note Cons.IH[OF short]
      finally show ?thesis unfolding em .
    qed
  qed
qed

lemma emitted_empty: "emitted c {} roots = []"
  by (simp add: emitted_def)

lemma buildSearchResults_eq:
  "buildSearchResults codes hl n s =
     (case allDataCache s of
        None \<Rightarrow> []
      | Some c \<Rightarrow> take (max 1 n) (map (hlRow hl) (emitted c (matchedRoots c codes) (rootOrder c))))"
proof (cases "allDataCache s")
  case None
  then show ?thesis by (simp add: buildSearchResults_def)
next
  case (Some c)
  have "pushRoots c (matchedRoots c codes) hl n (rootOrder c) [] =
      take (max 1 n) ([] @ map (hlRow hl) (emitted c (matchedRoots c codes) (rootOrder c)))"
    by (rule pushRoots_eq) simp
  then show ?thesis using Some
    by (simp add: buildSearchResults_def Let_def emitted_empty)
qed

lemma matchedRoots_mono: "A \<subseteq> B \<Longrightarrow> matchedRoots c A \<subseteq> matchedRoots c B"
  by (auto simp: matchedRoots_def)

lemma set_emitted_mono: "M \<subseteq> N \<Longrightarrow> set (emitted c M roots) \<subseteq> set (emitted c N roots)"
  by (auto simp: emitted_def)

lemma distinct_concat_filters:
  assumes "distinct out" "distinct rts"
  shows "distinct (concat (map (\<lambda>rt. filter (\<lambda>r. g r = Some rt) out) rts))"
  using assms(2)
proof (induction rts)
  case Nil
  show ?case by simp
next
  case (Cons rt rts)
  have "set (filter (\<lambda>r. g r = Some rt) out) \<inter>
        set (concat (map (\<lambda>rt. filter (\<lambda>r. g r = Some rt) out) rts)) = {}"
    using Cons.prems by auto
  then show ?case using Cons assms(1) by simp
qed

lemma emptyCache_eq: "emptyCache = buildCachedData []"
  by (simp add: buildCachedData_eq emptyCache_def mapFromEntries_def insertionOrder_def
      rootsSeen_def)

lemma distinct_sort_key_code:
  "distinct (map code rows) \<Longrightarrow> distinct (map code (sort_key code rows))"
  by (metis distinct_map distinct_sort set_sort)

lemma cacheOK_distinct:
  assumes "cacheOK c"
  shows "distinct (map code (cache c))" and "distinct (map code (emitted c M (rootOrder c)))"
proof -
  from assms obtain rows where rows: "distinct (map code rows)" "c = buildCachedData rows"
    by (auto simp: cacheOK_def)
  let ?S = "set (map code rows)"
  let ?cloned = "sort_key code rows"
  let ?out = "map (setRoot ?S) ?cloned"
  have c: "cache c = ?out"
    "byRootCode c = (\<lambda>rt. if rt \<in> rootsSeen ?S ?cloned then Some (bucketOf ?S ?cloned rt) else None)"
    "rootOrder c = insertionOrder (map (\<lambda>r. rootOf ?S (code r)) ?cloned)"
    unfolding rows(2) buildCachedData_eq Let_def by simp_all
  have dc: "distinct (map code ?out)"
    using distinct_sort_key_code[OF rows(1)] by (simp add: comp_def)
  then show "distinct (map code (cache c))" by (simp add: c(1))
  have inj: "inj_on code (set ?out)" and dout: "distinct ?out"
    using dc unfolding distinct_map[of code ?out] by blast+
  let ?rts = "filter (\<lambda>rt. rt \<in> M \<and> byRootCode c rt \<noteq> None) (rootOrder c)"
  have em: "emitted c M (rootOrder c) =
      concat (map (\<lambda>rt. filter (\<lambda>r. rootCode r = Some rt) ?out) ?rts)"
    unfolding emitted_def
    by (intro arg_cong[where f = concat] map_cong refl) (auto simp: c(2) bucketOf_def)
  have "distinct ?rts" by (simp add: c(3) distinct_insertionOrder)
  from distinct_concat_filters[OF dout this, of rootCode]
  have d: "distinct (emitted c M (rootOrder c))" by (simp add: em)
  have "set (emitted c M (rootOrder c)) \<subseteq> set ?out" unfolding em by auto
  then have "inj_on code (set (emitted c M (rootOrder c)))"
    using inj by (rule inj_on_subset[rotated])
  with d show "distinct (map code (emitted c M (rootOrder c)))" by (simp add: distinct_map)
qed

lemma ensureAllDataCache_ok:
  assumes "stateOK s"
  shows "stateOK (snd (ensureAllDataCache env s))"
    and "distinct (map code (fst (ensureAllDataCache env s)))"
    and "customs (snd (ensureAllDataCache env s)) = customs s"
proof -
  have built: "cacheOK (buildCachedData (tableToArray (customs s)))"
    using assms distinct_sort_key_code[of "customs s"]
    by (auto simp: cacheOK_def stateOK_def tableToArray_def)
  have empty: "cacheOK emptyCache"
    by (auto simp: cacheOK_def emptyCache_eq intro!: exI[of _ "[]"])
  show "stateOK (snd (ensureAllDataCache env s))"
    using assms built empty
    by (auto simp: ensureAllDataCache_def stateOK_def logLine_def Let_def split: option.splits)
  show "distinct (map code (fst (ensureAllDataCache env s)))"
    using assms cacheOK_distinct(1)[OF built]
    by (auto simp: ensureAllDataCache_def stateOK_def Let_def cacheOK_distinct(1) split: option.splits)
  show "customs (snd (ensureAllDataCache env s)) = customs s"
    by (auto simp: ensureAllDataCache_def logLine_def Let_def split: option.splits)
qed

lemma ensureAllDataCache_Some:
  "allDataCache s = Some c \<Longrightarrow> ensureAllDataCache env s = (cache c, s)"
  by (simp add: ensureAllDataCache_def)

lemma ensureAllDataCache_sets:
  assumes "hasWindow env"
  shows "\<exists>c. allDataCache (snd (ensureAllDataCache env s)) = Some c \<and>
             fst (ensureAllDataCache env s) = cache c"
  using assms
  by (auto simp: ensureAllDataCache_def logLine_def Let_def emptyCache_def split: option.splits)

lemma searchByDescriptionHits_cache:
  assumes "allDataCache s = Some c"
  shows "allDataCache (snd (searchByDescriptionHits env q n s)) = Some c \<and>
         customs (snd (searchByDescriptionHits env q n s)) = customs s"
proof -
  have e: "allDataCache (snd (ensureDescriptionIndex env s)) = Some c \<and>
           customs (snd (ensureDescriptionIndex env s)) = customs s"
    using assms
    by (auto simp: ensureDescriptionIndex_def ensureAllDataCache_Some Let_def split: option.splits)
  obtain r s1 where r: "ensureDescriptionIndex env s = (r, s1)"
    by (cases "ensureDescriptionIndex env s") auto
  with e have s1: "allDataCache s1 = Some c" "customs s1 = customs s" by auto
  show ?thesis
    using r s1
    by (auto simp: searchByDescriptionHits_def ensureAllDataCache_Some[OF s1(1)] Let_def
        split: sum.splits)
qed

lemma trim_Nil [simp]: "trim [] = []"
  by (simp add: trim_def)

text \<open>The two searches of C2, reduced to \<open>buildSearchResults\<close>.\<close>

lemma search_code_only:
  assumes "hasWindow env" "trim a \<noteq> []"
  shows "fst (searchByFields env a [] opts s) =
     (let r = ensureAllDataCache env s;
          X = set (primaryKeysStartingWith (trim a) (parentLimit opts * CODE_SEARCH_MULTIPLIER)
                     (customs (snd r)))
      in if fst r = [] \<or> scanFails env \<or> X = {} then []
         else buildSearchResults X Map.empty (itemLimit opts) (snd r))"
  using assms
  by (auto simp: searchByFields_def searchBody_def searchByCodeCodes_def Let_def intersectCodes_def
      split: prod.splits sum.splits)

lemma search_combined:
  assumes "hasWindow env" "trim a \<noteq> []" "trim b \<noteq> []"
  shows "fst (searchByFields env a b opts s) = [] \<or>
     (fst (ensureAllDataCache env s) \<noteq> [] \<and> \<not> scanFails env \<and>
      (\<exists>D hl s2. allDataCache s2 = allDataCache (snd (ensureAllDataCache env s)) \<and>
         fst (searchByFields env a b opts s) =
           buildSearchResults
             (set (primaryKeysStartingWith (trim a) (parentLimit opts * CODE_SEARCH_MULTIPLIER)
                     (customs (snd (ensureAllDataCache env s)))) \<inter> D)
             hl (itemLimit opts) s2))"
proof -
  obtain rows s1 where r: "ensureAllDataCache env s = (rows, s1)"
    by (cases "ensureAllDataCache env s") auto
  from ensureAllDataCache_sets[OF assms(1), of s] r obtain c where c: "allDataCache s1 = Some c"
    by auto
  obtain hres s2 where h: "searchByDescriptionHits env (trim b) (itemLimit opts) s1 = (hres, s2)"
    by (cases "searchByDescriptionHits env (trim b) (itemLimit opts) s1") auto
  from searchByDescriptionHits_cache[OF c, of env "trim b" "itemLimit opts"] h
  have s2: "allDataCache s2 = allDataCache s1" using c by simp
  have inter: "{c \<in> X. c \<in> Y} = X \<inter> Y" for X Y :: "string set" by auto
  show ?thesis
  proof (cases "rows = [] \<or> scanFails env \<or> isl hres")
    case True
    then have "fst (searchByFields env a b opts s) = []"
      using assms r h
      by (auto simp: searchByFields_def searchBody_def searchByCodeCodes_def Let_def logLine_def
          isl_def split: prod.splits sum.splits)
    then show ?thesis by simp
  next
    case False
    then obtain hits where hits: "hres = Inr hits" by (cases hres) auto
    let ?X = "set (primaryKeysStartingWith (trim a) (parentLimit opts * CODE_SEARCH_MULTIPLIER)
                     (customs s1))"
    have "fst (searchByFields env a b opts s) =
        (if ?X \<inter> set (map hitId hits) = {} then []
         else buildSearchResults (?X \<inter> set (map hitId hits)) (highlightMap hits) (itemLimit opts) s2)"
      using assms r h hits False
      by (simp add: searchByFields_def searchBody_def searchByCodeCodes_def Let_def
          intersectCodes_def inter)
    then show ?thesis using False r s2 by auto
  qed
qed

lemma search_shape:
  assumes "hasWindow env" "trim a \<noteq> [] \<or> trim b \<noteq> []"
  shows "fst (searchByFields env a b opts s) = [] \<or>
     (\<exists>codes hl s2. allDataCache s2 = allDataCache (snd (ensureAllDataCache env s)) \<and>
         fst (searchByFields env a b opts s) = buildSearchResults codes hl (itemLimit opts) s2)"
proof -
  obtain rows s1 where r: "ensureAllDataCache env s = (rows, s1)"
    by (cases "ensureAllDataCache env s") auto
  from ensureAllDataCache_sets[OF assms(1), of s] r obtain c where c: "allDataCache s1 = Some c"
    by auto
  obtain hres s2 where h: "searchByDescriptionHits env (trim b) (itemLimit opts) s1 = (hres, s2)"
    by (cases "searchByDescriptionHits env (trim b) (itemLimit opts) s1") auto
  from searchByDescriptionHits_cache[OF c, of env "trim b" "itemLimit opts"] h
  have s2: "allDataCache s2 = allDataCache s1" using c by simp
  show ?thesis
  proof (cases "trim b = []")
    case True
    then have a: "trim a \<noteq> []" using assms(2) by simp
    have "fst (searchByFields env a b opts s) = [] \<or>
        (\<exists>codes. fst (searchByFields env a b opts s) =
            buildSearchResults codes Map.empty (itemLimit opts) s1)"
      using assms(1) a True r
      by (auto simp: searchByFields_def searchBody_def searchByCodeCodes_def Let_def
          intersectCodes_def split: prod.splits sum.splits)
    then show ?thesis using r by auto
  next
    case False
    have "fst (searchByFields env a b opts s) = [] \<or>
        (\<exists>codes hl. fst (searchByFields env a b opts s) =
            buildSearchResults codes hl (itemLimit opts) s2)"
      using assms(1) False r h
      by (auto simp: searchByFields_def searchBody_def searchByCodeCodes_def Let_def
          split: prod.splits sum.splits)
    then show ?thesis using r s2 by auto
  qed
qed

lemma distinct_take_map:
  "distinct (map f xs) \<Longrightarrow> distinct (map f (take n xs))"
  by (metis distinct_take take_map)

section \<open>Failures inside a search\<close>







section \<open>Properties of root derivation\<close>











section \<open>Properties of the revision built on MiniSearch\<close>

subsection \<open>No code twice\<close>

lemma addRecord_codes: "set (map code (fold addRecord xs acc)) = set (map code acc) \<union> set (map code xs)"
  by (induction xs arbitrary: acc) (auto simp: addRecord_def)

lemma addRecord_distinct: "distinct (map code acc) \<Longrightarrow> distinct (map code (fold addRecord xs acc))"
  by (induction xs arbitrary: acc) (auto simp: addRecord_def)

lemma distinct_map_array_sort: "distinct (map f (array_sort cmp xs)) = distinct (map f xs)"
proof -
  have "mset (map f (array_sort cmp xs)) = mset (map f xs)"
    by (simp add: mset_array_sort)
  then show ?thesis by (rule mset_eq_imp_distinct_iff)
qed

lemma getSubtreeWithAncestors_distinct:
  "getSubtreeWithAncestors env tbl target = Inr rows \<Longrightarrow> distinct (map code rows)"
  by (auto simp: getSubtreeWithAncestors_def Let_def distinct_map_array_sort addRecord_distinct
      split: sum.splits if_splits)

lemma code_setHighlight: "code (setHighlight hl r) = code r"
  by (simp add: setHighlight_def split: option.splits)

lemma getSubtreesForHits_distinct:
  "getSubtreesForHits env tbl codes hits = Inr rows \<Longrightarrow> distinct (map code rows)"
  by (auto simp: getSubtreesForHits_def Let_def distinct_map_array_sort addRecord_distinct
      comp_def code_setHighlight split: sum.splits)

lemma distinct_tableToArray: "distinct (map code (tableToArray tbl)) = distinct (map code tbl)"
proof -
  have "mset (map code (sort_key code tbl)) = mset (map code tbl)"
    by simp
  then show ?thesis unfolding tableToArray_def by (rule mset_eq_imp_distinct_iff)
qed

lemma ensureDescriptionIndexMini_customs:
  "customs (snd (ensureDescriptionIndexMini env s)) = customs s"
  by (simp add: ensureDescriptionIndexMini_def Let_def split: option.splits)

lemma searchByDescriptionHitsMini_customs:
  "customs (snd (searchByDescriptionHitsMini env q s)) = customs s"
  using ensureDescriptionIndexMini_customs[of env s]
  by (auto simp: searchByDescriptionHitsMini_def split: prod.splits sum.splits)

lemma searchByFieldsMini_distinct:
  assumes "distinct (map code (customs s))"
  shows "distinct (map code (fst (searchByFieldsMini env a b s)))"
proof -
  have "distinct (map code rows)" if "fst (searchBodyMini env a b s) = Inr rows" for rows
    using that assms
    by (auto simp: searchBodyMini_def Let_def getAllDataMini_def distinct_tableToArray
        split: if_splits prod.splits sum.splits
        dest: getSubtreeWithAncestors_distinct getSubtreesForHits_distinct)
  then show ?thesis
    by (cases "searchBodyMini env a b s") (auto simp: searchByFieldsMini_def split: sum.splits)
qed

subsection \<open>Paths and parents\<close>

lemma findExistingParent_ok:
  "\<not> readFails env \<Longrightarrow> findExistingParent env tbl c = Inr (findParentCode c (set (map code tbl)))"
  by (simp add: findExistingParent_def)

lemma findParentCode_prefix:
  "findParentCode c S = Some p \<Longrightarrow> p \<in> S \<and> p \<noteq> [] \<and> prefix p c"
  by (auto simp: findParentCode_Some_iff ancestorOf_def)

lemma getLowestExistingAncestor_ok:
  "\<not> readFails env \<Longrightarrow>
   \<exists>lo. getLowestExistingAncestor env tbl cur = Inr lo \<and>
     (\<forall>l. lo = Some l \<longrightarrow> l \<in> set (map code tbl) \<and> l \<noteq> [] \<and> (\<exists>c. cur = Some c \<and> prefix l c))"
proof (induction env tbl cur rule: getLowestExistingAncestor.induct)
  case (1 env tbl cur)
  show ?case
  proof (cases cur)
    case None
    then show ?thesis by (simp add: getLowestExistingAncestor.simps[of env tbl cur])
  next
    case (Some c)
    show ?thesis
    proof (cases "c = [] \<or> c \<in> set (map code tbl)")
      case True
      then show ?thesis using Some "1.prems"
        by (auto simp: getLowestExistingAncestor.simps[of env tbl cur])
    next
      case False
      then have e: "getLowestExistingAncestor env tbl cur =
          getLowestExistingAncestor env tbl (findParentCode c (set (map code tbl)))"
        using Some "1.prems" by (simp add: getLowestExistingAncestor.simps[of env tbl cur])
      from "1.IH"[OF Some _ "1.prems"(1) _ "1.prems"] False "1.prems"
      obtain lo where lo: "getLowestExistingAncestor env tbl (findParentCode c (set (map code tbl))) = Inr lo"
        "\<forall>l. lo = Some l \<longrightarrow> l \<in> set (map code tbl) \<and> l \<noteq> [] \<and>
           (\<exists>c'. findParentCode c (set (map code tbl)) = Some c' \<and> prefix l c')"
        by auto
      have "\<forall>l. lo = Some l \<longrightarrow> l \<in> set (map code tbl) \<and> l \<noteq> [] \<and> prefix l c"
        using lo(2) by (auto dest!: findParentCode_prefix)
      then show ?thesis using e lo(1) Some by auto
    qed
  qed
qed

lemma getLowestExistingAncestor_self:
  "\<not> readFails env \<Longrightarrow> c \<noteq> [] \<Longrightarrow> c \<in> set (map code tbl) \<Longrightarrow>
     getLowestExistingAncestor env tbl (Some c) = Inr (Some c)"
  by (simp add: getLowestExistingAncestor.simps[of env tbl "Some c"])

lemma ancestors_step:
  assumes "findParentCode c S = Some p"
  shows "{k \<in> S. ancestorOf k c} = insert p {k \<in> S. ancestorOf k p}"
proof -
  from assms have p: "p \<in> S" "ancestorOf p c" "\<forall>q\<in>S. ancestorOf q c \<longrightarrow> length q \<le> length p"
    by (auto simp: findParentCode_Some_iff)
  show ?thesis
  proof (intro set_eqI iffI)
    fix k assume "k \<in> {k \<in> S. ancestorOf k c}"
    then have k: "k \<in> S" "ancestorOf k c" by auto
    from ancestorOf_linear[OF k(2) p(2)] have "k = p \<or> ancestorOf k p \<or> ancestorOf p k" .
    moreover have "\<not> ancestorOf p k"
    proof
      assume "ancestorOf p k"
      then have "length p < length k" by (rule ancestorOf_length)
      moreover from p(3) k have "length k \<le> length p" by blast
      ultimately show False by simp
    qed
    ultimately show "k \<in> insert p {k \<in> S. ancestorOf k p}" using k(1) by auto
  next
    fix k assume "k \<in> insert p {k \<in> S. ancestorOf k p}"
    then show "k \<in> {k \<in> S. ancestorOf k c}"
      using p(1,2) by (auto intro: ancestorOf_trans)
  qed
qed

lemma getPath_from_ok:
  "\<not> readFails env \<Longrightarrow>
   \<exists>p'. getPath_from env tbl cur path = Inr p' \<and>
     set p' = set path \<union> {k \<in> set (map code tbl). ancestorOf k cur}"
proof (induction env tbl cur path rule: getPath_from.induct)
  case (1 env tbl cur path)
  let ?S = "set (map code tbl)"
  have fe: "findExistingParent env tbl cur = Inr (findParentCode cur ?S)"
    using "1.prems" by (rule findExistingParent_ok)
  show ?case
  proof (cases "findParentCode cur ?S")
    case None
    then have e: "{k \<in> ?S. ancestorOf k cur} = {}" by (auto simp: findParentCode_None_iff)
    have g: "getPath_from env tbl cur path = Inr path"
      using fe None by (simp add: getPath_from.simps[of env tbl cur path])
    have "set path = set path \<union> {k \<in> ?S. ancestorOf k cur}" unfolding e by simp
    with g show ?thesis by blast
  next
    case (Some p)
    from "1.IH"[OF fe Some "1.prems"] obtain p' where p':
      "getPath_from env tbl p (p # path) = Inr p'"
      "set p' = set (p # path) \<union> {k \<in> ?S. ancestorOf k p}" by blast
    have "getPath_from env tbl cur path = Inr p'"
      using fe Some p'(1) by (simp add: getPath_from.simps[of env tbl cur path])
    moreover have "set p' = set path \<union> {k \<in> ?S. ancestorOf k cur}"
      unfolding p'(2) ancestors_step[OF Some] by auto
    ultimately show ?thesis by blast
  qed
qed

lemma getPath_ok:
  "\<not> readFails env \<Longrightarrow>
   \<exists>p'. getPath env tbl l = Inr p' \<and> set p' = insert l {k \<in> set (map code tbl). ancestorOf k l}"
  using getPath_from_ok[of env tbl l "[l]"] by (auto simp: getPath_def)

lemma sequenceAll_map: "(\<And>x. x \<in> set xs \<Longrightarrow> f x = Inr (g x)) \<Longrightarrow> sequenceAll f xs = Inr (map g xs)"
  by (induction xs) auto

text \<open>The parents of the codes on a path are the codes above its end.\<close>

lemma parents_of_path:
  assumes "l \<in> S"
  shows "{k. \<exists>c \<in> insert l {k \<in> S. ancestorOf k l}. findParentCode c S = Some k} =
         {k \<in> S. ancestorOf k l}"
proof (intro set_eqI iffI)
  fix k assume "k \<in> {k. \<exists>c \<in> insert l {k \<in> S. ancestorOf k l}. findParentCode c S = Some k}"
  then obtain c where c: "c = l \<or> ancestorOf c l" "findParentCode c S = Some k" by auto
  then have "k \<in> S" "ancestorOf k c" by (auto simp: findParentCode_Some_iff)
  then show "k \<in> {k \<in> S. ancestorOf k l}" using c(1) by (auto intro: ancestorOf_trans)
next
  fix k assume "k \<in> {k \<in> S. ancestorOf k l}"
  then have k: "k \<in> S" "ancestorOf k l" by auto
  let ?M = "\<lambda>c. (c = l \<or> (c \<in> S \<and> ancestorOf c l)) \<and> ancestorOf k c"
  have "?M l" using k by simp
  from ex_has_least_nat[of ?M l length, OF this]
  obtain c where c: "?M c" "\<forall>y. ?M y \<longrightarrow> length c \<le> length y" by blast
  have cS: "c \<in> S" using c(1) assms by auto
  have "findParentCode c S = Some k"
    unfolding findParentCode_Some_iff
  proof (intro conjI ballI impI)
    show "k \<in> S" by (rule k(1))
    show "ancestorOf k c" using c(1) by simp
    fix q assume q: "q \<in> S" "ancestorOf q c"
    show "length q \<le> length k"
    proof (rule ccontr)
      assume "\<not> length q \<le> length k"
      then have lt: "length k < length q" by simp
      from ancestorOf_linear[OF q(2)] c(1) have "q = k \<or> ancestorOf q k \<or> ancestorOf k q" by blast
      with lt have kq: "ancestorOf k q" by (auto dest: ancestorOf_length)
      have "ancestorOf q l" using q(2) c(1) by (auto intro: ancestorOf_trans)
      then have "?M q" using q(1) kq by simp
      with c(2) have "length c \<le> length q" by blast
      with q(2) show False by (auto dest: ancestorOf_length)
    qed
  qed
  then show "k \<in> {k. \<exists>c \<in> insert l {k \<in> S. ancestorOf k l}. findParentCode c S = Some k}"
    using c(1) cS by blast
qed

subsection \<open>The codes of a subtree with its ancestors\<close>

lemma getSubtreeWithAncestors_eq:
  assumes "startingWith env tbl p = Inr sub" "sub \<noteq> []"
    and "getLowestExistingAncestor env tbl (Some p) = Inr lo"
    and "(case lo of None \<Rightarrow> Inr [] | Some l \<Rightarrow> getPath env tbl l) = Inr pth"
    and "sequenceAll (getRecord env tbl) pth = Inr anc"
    and "sequenceAll (findExistingParent env tbl) pth = Inr pars"
    and "sequenceAll (getDirectChildrenRecords env tbl)
           (insertionOrder (concat (map (\<lambda>p. case p of None \<Rightarrow> [] | Some c \<Rightarrow> [c]) pars))) = Inr sibs"
  shows "getSubtreeWithAncestors env tbl p =
     Inr (array_sort sortChildren
            (fold addRecord
               (sub @ concat (map (\<lambda>r. case r of None \<Rightarrow> [] | Some x \<Rightarrow> [x]) anc) @ concat sibs) []))"
  unfolding getSubtreeWithAncestors_def using assms by (simp add: Let_def)

lemma startingWith_ok:
  "\<not> scanFails env \<Longrightarrow>
     startingWith env tbl p = Inr (filter (\<lambda>r. prefix p (code r)) (tableToArray tbl))"
  by (simp add: startingWith_def)

lemma set_tableToArray: "set (tableToArray tbl) = set tbl"
  by (simp add: tableToArray_def)

lemma getDirectChildrenRecords_ok:
  assumes "\<not> scanFails env"
  shows "\<exists>rows. getDirectChildrenRecords env tbl k = Inr rows \<and>
     set (map code rows) \<subseteq> {c \<in> set (map code tbl). prefix k c}"
  using assms
  by (auto simp: getDirectChildrenRecords_def startingWith_def Let_def set_array_sort
      set_tableToArray)

lemma childCodes_subset:
  "\<not> scanFails env \<Longrightarrow> childCodes env tbl k \<subseteq> {c \<in> set (map code tbl). prefix k c}"
proof -
  assume "\<not> scanFails env"
  from getDirectChildrenRecords_ok[OF this, of tbl k] obtain rows where
    "getDirectChildrenRecords env tbl k = Inr rows"
    "set (map code rows) \<subseteq> {c \<in> set (map code tbl). prefix k c}" by blast
  then show ?thesis by (simp add: childCodes_def)
qed

lemma find_code:
  "c \<in> set (map code tbl) \<Longrightarrow> \<exists>r. find (\<lambda>r. code r = c) tbl = Some r \<and> code r = c"
  by (induction tbl) auto

lemma found_codes:
  assumes "set pth \<subseteq> set (map code tbl)"
  shows "set (map code (concat (map (\<lambda>r. case r of None \<Rightarrow> [] | Some x \<Rightarrow> [x])
            (map (\<lambda>c. find (\<lambda>r. code r = c) tbl) pth)))) = set pth"
  using assms
proof (induction pth)
  case Nil
  then show ?case by simp
next
  case (Cons c pth)
  then have "c \<in> set (map code tbl)" by simp
  from find_code[OF this] obtain r where "find (\<lambda>r. code r = c) tbl = Some r" "code r = c" by blast
  then show ?case using Cons by simp
qed

lemma getSubtreeWithAncestors_codes:
  assumes "\<not> readFails env" "\<not> scanFails env"
  shows "\<exists>rows lo. getSubtreeWithAncestors env tbl p = Inr rows \<and>
     getLowestExistingAncestor env tbl (Some p) = Inr lo \<and>
     set (map code rows) =
       (if \<forall>r\<in>set tbl. \<not> prefix p (code r) then {}
        else {c \<in> set (map code tbl). prefix p c} \<union>
             (case lo of
                None \<Rightarrow> {}
              | Some l \<Rightarrow> insert l {k \<in> set (map code tbl). ancestorOf k l} \<union>
                          (\<Union>k\<in>{k \<in> set (map code tbl). ancestorOf k l}. childCodes env tbl k)))"
proof -
  let ?S = "set (map code tbl)"
  let ?sub = "filter (\<lambda>r. prefix p (code r)) (tableToArray tbl)"
  have sw: "startingWith env tbl p = Inr ?sub" using assms(2) by (rule startingWith_ok)
  from getLowestExistingAncestor_ok[OF assms(1), of tbl "Some p"] obtain lo where
    lo: "getLowestExistingAncestor env tbl (Some p) = Inr lo"
    "\<forall>l. lo = Some l \<longrightarrow> l \<in> ?S \<and> l \<noteq> [] \<and> prefix l p" by auto
  show ?thesis
  proof (cases "?sub = []")
    case True
    then have "\<forall>r\<in>set tbl. \<not> prefix p (code r)"
      by (auto simp: filter_empty_conv set_tableToArray)
    moreover have "getSubtreeWithAncestors env tbl p = Inr []"
      unfolding getSubtreeWithAncestors_def using sw True by simp
    ultimately show ?thesis using lo(1) by simp
  next
    case ne: False
    then have ex: "\<not> (\<forall>r\<in>set tbl. \<not> prefix p (code r))"
      by (auto simp: filter_empty_conv set_tableToArray)
    have subc: "set (map code ?sub) = {c \<in> ?S. prefix p c}"
      by (auto simp: set_tableToArray)
    obtain pth where pth: "(case lo of None \<Rightarrow> Inr [] | Some l \<Rightarrow> getPath env tbl l) = Inr pth"
      "set pth = (case lo of None \<Rightarrow> {} | Some l \<Rightarrow> insert l {k \<in> ?S. ancestorOf k l})"
    proof (cases lo)
      case None
      then show ?thesis using that[of "[]"] by simp
    next
      case (Some l)
      from getPath_ok[OF assms(1), of tbl l] obtain p' where
        "getPath env tbl l = Inr p'" "set p' = insert l {k \<in> ?S. ancestorOf k l}" by blast
      then show ?thesis using that[of p'] Some by simp
    qed
    have pS: "set pth \<subseteq> ?S" using pth(2) lo(2) by (auto split: option.splits)
    let ?anc = "map (\<lambda>c. find (\<lambda>r. code r = c) tbl) pth"
    have anc: "sequenceAll (getRecord env tbl) pth = Inr ?anc"
      using assms(1) by (intro sequenceAll_map) (simp add: getRecord_def)
    let ?pars = "map (\<lambda>c. findParentCode c ?S) pth"
    have pars: "sequenceAll (findExistingParent env tbl) pth = Inr ?pars"
      using assms(1) by (intro sequenceAll_map) (simp add: findExistingParent_ok)
    let ?pfs = "insertionOrder (concat (map (\<lambda>p. case p of None \<Rightarrow> [] | Some c \<Rightarrow> [c]) ?pars))"
    have "set ?pfs = {k. \<exists>c\<in>set pth. findParentCode c ?S = Some k}"
      by (auto simp: set_insertionOrder split: option.splits)
    also have "\<dots> = (case lo of None \<Rightarrow> {} | Some l \<Rightarrow> {k \<in> ?S. ancestorOf k l})"
    proof (cases lo)
      case None
      then show ?thesis using pth(2) by simp
    next
      case (Some l)
      then have "l \<in> ?S" using lo(2) by simp
      from parents_of_path[OF this] show ?thesis using pth(2) Some by simp
    qed
    finally have pfs: "set ?pfs = (case lo of None \<Rightarrow> {} | Some l \<Rightarrow> {k \<in> ?S. ancestorOf k l})" .
    let ?sibs = "map (\<lambda>k. projr (getDirectChildrenRecords env tbl k)) ?pfs"
    have gd: "getDirectChildrenRecords env tbl k = Inr (projr (getDirectChildrenRecords env tbl k))" for k
      using getDirectChildrenRecords_ok[OF assms(2), of tbl k] by auto
    have sibs: "sequenceAll (getDirectChildrenRecords env tbl) ?pfs = Inr ?sibs"
      by (intro sequenceAll_map) (rule gd)
    have cc: "set (map code (projr (getDirectChildrenRecords env tbl k))) = childCodes env tbl k" for k
    proof -
      obtain rows where r: "getDirectChildrenRecords env tbl k = Inr rows"
        using gd[of k] by blast
      then show ?thesis by (simp add: childCodes_def)
    qed
    have sibc: "set (map code (concat ?sibs)) = (\<Union>k\<in>set ?pfs. childCodes env tbl k)"
      using cc by (simp add: image_UN) 
    from getSubtreeWithAncestors_eq[OF sw ne lo(1) pth(1) anc pars sibs]
    have g: "getSubtreeWithAncestors env tbl p =
       Inr (array_sort sortChildren
              (fold addRecord
                 (?sub @ concat (map (\<lambda>r. case r of None \<Rightarrow> [] | Some x \<Rightarrow> [x]) ?anc) @ concat ?sibs) []))" .
    have "set (map code (array_sort sortChildren
              (fold addRecord
                 (?sub @ concat (map (\<lambda>r. case r of None \<Rightarrow> [] | Some x \<Rightarrow> [x]) ?anc) @ concat ?sibs) [])))
        = set (map code ?sub) \<union> set pth \<union> (\<Union>k\<in>set ?pfs. childCodes env tbl k)"
      unfolding set_map set_array_sort
      using addRecord_codes[of "?sub @ concat (map (\<lambda>r. case r of None \<Rightarrow> [] | Some x \<Rightarrow> [x]) ?anc) @ concat ?sibs" "[]"]
        found_codes[OF pS] sibc
      by (simp only: set_map map_append set_append image_Un list.simps list.set image_empty Un_empty_left)
         blast
    then show ?thesis
      using g lo(1) ex unfolding subc pfs pth(2)
      by (cases lo) auto
  qed
qed

subsection \<open>A hit below a stored prefix\<close>

lemma getSubtreeWithAncestors_failing:
  assumes "readFails env \<or> scanFails env" "h \<noteq> []"
    and "getSubtreeWithAncestors env tbl h = Inr rows"
  shows "rows = []"
proof (cases "scanFails env")
  case True
  then show ?thesis using assms(3) by (simp add: getSubtreeWithAncestors_def startingWith_def)
next
  case False
  then have r: "readFails env" using assms(1) by simp
  have "getLowestExistingAncestor env tbl (Some h) = Inl StorageError"
    using r assms(2) by (simp add: getLowestExistingAncestor.simps[of env tbl "Some h"])
  then show ?thesis using assms(3) False
    by (auto simp: getSubtreeWithAncestors_def startingWith_def split: if_splits)
qed

lemma subtree_of_hit:
  assumes nf: "\<not> readFails env" "\<not> scanFails env"
    and p: "p \<noteq> []" "p \<in> set (map code tbl)" "prefix p h"
    and h: "getSubtreeWithAncestors env tbl h = Inr rows_h"
    and pr: "getSubtreeWithAncestors env tbl p = Inr rows_p"
  shows "set (map code rows_h) \<subseteq> set (map code rows_p)"
proof
  let ?S = "set (map code tbl)"
  let ?A = "\<lambda>l. {k \<in> ?S. ancestorOf k l}"
  fix x assume x: "x \<in> set (map code rows_h)"
  from getSubtreeWithAncestors_codes[OF nf, of tbl p] pr
    getLowestExistingAncestor_self[OF nf(1) p(1,2)]
  have "set (map code rows_p) =
      (if \<forall>r\<in>set tbl. \<not> prefix p (code r) then {}
       else {c \<in> ?S. prefix p c} \<union> (insert p (?A p) \<union> (\<Union>k\<in>?A p. childCodes env tbl k)))"
    by auto
  moreover have "\<not> (\<forall>r\<in>set tbl. \<not> prefix p (code r))" using p(2) by auto
  ultimately have P: "set (map code rows_p) =
      {c \<in> ?S. prefix p c} \<union> (insert p (?A p) \<union> (\<Union>k\<in>?A p. childCodes env tbl k))"
    by simp
  from getSubtreeWithAncestors_codes[OF nf, of tbl h] h obtain lo where
    lo: "getLowestExistingAncestor env tbl (Some h) = Inr lo"
    and H: "set (map code rows_h) =
       (if \<forall>r\<in>set tbl. \<not> prefix h (code r) then {}
        else {c \<in> ?S. prefix h c} \<union>
             (case lo of None \<Rightarrow> {}
              | Some l \<Rightarrow> insert l (?A l) \<union> (\<Union>k\<in>?A l. childCodes env tbl k)))"
    by auto
  from getLowestExistingAncestor_ok[OF nf(1), of tbl "Some h"] lo
  have lo': "\<forall>l. lo = Some l \<longrightarrow> l \<in> ?S \<and> l \<noteq> [] \<and> prefix l h" by auto
  have above: "k \<in> {c \<in> ?S. prefix p c} \<or> k \<in> ?A p" if "k \<in> ?S" "k \<noteq> []" "prefix k h" for k
  proof -
    from prefix_same_cases[OF that(3) p(3)] have "prefix k p \<or> prefix p k" .
    then show ?thesis
    proof
      assume "prefix p k"
      then show ?thesis using that(1) by simp
    next
      assume kp: "prefix k p"
      show ?thesis
      proof (cases "k = p")
        case True
        then show ?thesis using that(1) by simp
      next
        case False
        then have "ancestorOf k p" using kp that(2) by (simp add: ancestorOf_def strict_prefix_def)
        then show ?thesis using that(1) by simp
      qed
    qed
  qed
  from x H have xin: "x \<in> {c \<in> ?S. prefix h c} \<union>
      (case lo of None \<Rightarrow> {}
       | Some l \<Rightarrow> insert l (?A l) \<union> (\<Union>k\<in>?A l. childCodes env tbl k))"
    by (simp split: if_splits)
  have "(x \<in> ?S \<and> prefix h x) \<or> (\<exists>l. lo = Some l \<and> x \<in> insert l (?A l)) \<or>
      (\<exists>l k. lo = Some l \<and> k \<in> ?A l \<and> x \<in> childCodes env tbl k)"
  proof (cases lo)
    case None
    then show ?thesis using xin by simp
  next
    case (Some l)
    then have "x \<in> {c \<in> ?S. prefix h c} \<or> x \<in> insert l (?A l) \<or>
        x \<in> (\<Union>k\<in>?A l. childCodes env tbl k)"
      using xin by (simp only: option.case Un_iff)
    then show ?thesis using Some by blast
  qed
  then consider
      (sub) "x \<in> ?S" "prefix h x"
    | (path) l where "lo = Some l" "x \<in> insert l (?A l)"
    | (sib) l k where "lo = Some l" "k \<in> ?A l" "x \<in> childCodes env tbl k"
    by blast
  then show "x \<in> set (map code rows_p)"
  proof cases
    case sub
    then have "prefix p x" using p(3) by (auto intro: prefix_order.trans)
    then show ?thesis using sub(1) unfolding P by simp
  next
    case (path l)
    from path lo' have l: "l \<in> ?S" "l \<noteq> []" "prefix l h" by auto
    have "x \<in> ?S \<and> x \<noteq> [] \<and> prefix x h"
      using path(2) l by (auto simp: ancestorOf_def strict_prefix_def intro: prefix_order.trans)
    with above[of x] show ?thesis unfolding P by auto
  next
    case (sib l k)
    from sib lo' have l: "l \<in> ?S" "l \<noteq> []" "prefix l h" by auto
    have k: "k \<in> ?S" "k \<noteq> []" "prefix k h"
      using sib(2) l by (auto simp: ancestorOf_def strict_prefix_def intro: prefix_order.trans)
    from childCodes_subset[OF nf(2), of tbl k] sib(3) have xk: "x \<in> ?S" "prefix k x" by auto
    from above[OF k] show ?thesis
    proof
      assume "k \<in> {c \<in> ?S. prefix p c}"
      then have "prefix p x" using xk(2) by (auto intro: prefix_order.trans)
      then show ?thesis using xk(1) unfolding P by simp
    next
      assume "k \<in> ?A p"
      then show ?thesis using sib(3) unfolding P by blast
    qed
  qed
qed

lemma sequenceAll_Inr:
  "sequenceAll f xs = Inr ys \<Longrightarrow> list_all2 (\<lambda>x y. f x = Inr y) xs ys"
  by (induction xs arbitrary: ys) (auto split: sum.splits)

lemma searchMini_code_only:
  assumes "hasWindow env" "trim a \<noteq> []"
  shows "fst (searchByFieldsMini env a [] s) =
     (case getSubtreeWithAncestors env (customs s) (trim a) of Inl e \<Rightarrow> [] | Inr rows \<Rightarrow> rows)"
  using assms by (simp add: searchByFieldsMini_def searchBodyMini_def Let_def split: sum.splits)

lemma getSubtreesForHits_codes:
  assumes "getSubtreesForHits env tbl codes hits = Inr rows"
  shows "\<exists>subtrees. list_all2 (\<lambda>h rs. getSubtreeWithAncestors env tbl h = Inr rs) codes subtrees \<and>
     set (map code rows) = (\<Union>rs\<in>set subtrees. set (map code rs))"
proof -
  from assms obtain subtrees where st: "sequenceAll (getSubtreeWithAncestors env tbl) codes = Inr subtrees"
    and rows: "rows = array_sort sortChildren
       (map (setHighlight (mapFromEntries (map (\<lambda>h. (hitId h, highlight h)) hits)))
          (fold addRecord (concat subtrees) []))"
    by (auto simp: getSubtreesForHits_def Let_def split: sum.splits)
  have "set (map code rows) = set (map code (fold addRecord (concat subtrees) []))"
    unfolding rows by (simp add: set_array_sort image_image code_setHighlight)
  also have "\<dots> = (\<Union>rs\<in>set subtrees. set (map code rs))"
    unfolding addRecord_codes by auto
  finally show ?thesis using sequenceAll_Inr[OF st] by blast
qed

lemma searchMini_combined_subset:
  assumes "trim a \<noteq> []" "trim b \<noteq> []" "trim a \<in> set (map code (customs s))"
  shows "set (map code (fst (searchByFieldsMini env a b s))) \<subseteq>
         set (map code (fst (searchByFieldsMini env a [] s)))"
proof (cases "hasWindow env")
  case False
  then show ?thesis by (simp add: searchByFieldsMini_def)
next
  case w: True
  let ?p = "trim a"
  let ?T = "customs s"
  let ?P = "case getSubtreeWithAncestors env ?T ?p of Inl e \<Rightarrow> [] | Inr rows \<Rightarrow> rows"
  note only = searchMini_code_only[OF w assms(1), of s]
  obtain res s1 where d: "searchByDescriptionHitsMini env (trim b) s = (res, s1)"
    by (cases "searchByDescriptionHitsMini env (trim b) s") auto
  have c1: "customs s1 = ?T" using searchByDescriptionHitsMini_customs[of env "trim b" s] d by simp
  show ?thesis
  proof (cases res)
    case (Inl e)
    then have "fst (searchByFieldsMini env a b s) = []"
      using w assms(1,2) d by (simp add: searchByFieldsMini_def searchBodyMini_def Let_def)
    then show ?thesis by simp
  next
    case (Inr hits)
    let ?rel = "filter (\<lambda>h. prefix ?p (hitId h)) hits"
    show ?thesis
    proof (cases "?rel = []")
      case True
      then have "fst (searchByFieldsMini env a b s) = ?P"
        using w assms(1,2) d Inr c1
        by (simp add: searchByFieldsMini_def searchBodyMini_def Let_def split: sum.splits)
      then show ?thesis unfolding only by simp
    next
      case False
      then have both: "fst (searchByFieldsMini env a b s) =
          (case getSubtreesForHits env ?T (map hitId ?rel) ?rel of Inl e \<Rightarrow> [] | Inr rows \<Rightarrow> rows)"
        using w assms(1,2) d Inr c1
        by (simp add: searchByFieldsMini_def searchBodyMini_def Let_def split: sum.splits)
      show ?thesis
      proof (cases "getSubtreesForHits env ?T (map hitId ?rel) ?rel")
        case (Inl e)
        then show ?thesis unfolding both by simp
      next
        case (Inr rows)
        from getSubtreesForHits_codes[OF Inr] obtain subtrees where
          st: "list_all2 (\<lambda>h rs. getSubtreeWithAncestors env ?T h = Inr rs) (map hitId ?rel) subtrees"
          and rc: "set (map code rows) = (\<Union>rs\<in>set subtrees. set (map code rs))" by blast
        have each: "\<exists>h. prefix ?p h \<and> getSubtreeWithAncestors env ?T h = Inr rs"
          if "rs \<in> set subtrees" for rs
        proof -
          from that obtain i where i: "i < length subtrees" "subtrees ! i = rs"
            by (auto simp: in_set_conv_nth)
          from list_all2_lengthD[OF st] have len: "length (map hitId ?rel) = length subtrees" .
          from list_all2_nthD2[OF st i(1)]
          have g: "getSubtreeWithAncestors env ?T (map hitId ?rel ! i) = Inr rs" using i(2) by simp
          have "map hitId ?rel ! i \<in> set (map hitId ?rel)" using i(1) len by (metis nth_mem)
          then have "prefix ?p (map hitId ?rel ! i)" by auto
          then show ?thesis using g by blast
        qed
        have "set (map code rs) \<subseteq> set (map code ?P)" if rs: "rs \<in> set subtrees" for rs
        proof -
          from each[OF rs] obtain h where h: "prefix ?p h" "getSubtreeWithAncestors env ?T h = Inr rs"
            by blast
          have hne: "h \<noteq> []" using h(1) assms(1) by auto
          show ?thesis
          proof (cases "readFails env \<or> scanFails env")
            case True
            from getSubtreeWithAncestors_failing[OF True hne h(2)] show ?thesis by simp
          next
            case False
            then have nf: "\<not> readFails env" "\<not> scanFails env" by auto
            from getSubtreeWithAncestors_codes[OF nf, of ?T ?p] obtain rows_p where
              pr: "getSubtreeWithAncestors env ?T ?p = Inr rows_p" by blast
            from subtree_of_hit[OF nf assms(1,3) h(1) h(2) pr] show ?thesis by (simp add: pr)
          qed
        qed
        then have "(\<Union>rs\<in>set subtrees. set (map code rs)) \<subseteq> set (map code ?P)" by blast
        then have "set (map code rows) \<subseteq> set (map code ?P)" unfolding rc .
        moreover have "fst (searchByFieldsMini env a b s) = rows" using both Inr by simp
        ultimately show ?thesis unfolding only by simp
      qed
    qed
  qed
qed

subsection \<open>Initialisation, failures and the other normalisation\<close>
















section \<open>Properties of the revisions that keep a cache\<close>





lemma combined_subset_limits:
  assumes "trim a \<noteq> []" "trim b \<noteq> []"
    and "length (fst (searchByFields env a [] opts s)) < itemLimit opts"
  shows "set (map code (fst (searchByFields env a b opts s))) \<subseteq>
         set (map code (fst (searchByFields env a [] opts s)))"
proof (cases "hasWindow env")
  case False
  then show ?thesis by (simp add: searchByFields_def)
next
  case w: True
  let ?r = "ensureAllDataCache env s"
  let ?X = "set (primaryKeysStartingWith (trim a) (parentLimit opts * CODE_SEARCH_MULTIPLIER)
                     (customs (snd ?r)))"
  from search_combined[OF w assms(1,2), of opts s] show ?thesis
  proof
    assume "fst (searchByFields env a b opts s) = []"
    then show ?thesis by simp
  next
    assume "fst ?r \<noteq> [] \<and> \<not> scanFails env \<and>
      (\<exists>D hl s2. allDataCache s2 = allDataCache (snd ?r) \<and>
         fst (searchByFields env a b opts s) = buildSearchResults (?X \<inter> D) hl (itemLimit opts) s2)"
    then obtain D hl s2 where c: "fst ?r \<noteq> []" "\<not> scanFails env"
      "allDataCache s2 = allDataCache (snd ?r)"
      "fst (searchByFields env a b opts s) = buildSearchResults (?X \<inter> D) hl (itemLimit opts) s2"
      by blast
    from ensureAllDataCache_sets[OF w, of s] obtain cd where cd: "allDataCache (snd ?r) = Some cd"
      by auto
    let ?all = "\<lambda>codes. emitted cd (matchedRoots cd codes) (rootOrder cd)"
    have both: "fst (searchByFields env a b opts s) =
        take (max 1 (itemLimit opts)) (map (hlRow hl) (?all (?X \<inter> D)))"
      by (simp add: c(4) buildSearchResults_eq c(3) cd)
    have full: "fst (searchByFields env a [] opts s) =
        take (max 1 (itemLimit opts)) (map (hlRow Map.empty) (?all ?X))"
    proof (cases "?X = {}")
      case True
      then show ?thesis
        unfolding search_code_only[OF w assms(1)] Let_def
        by (simp add: matchedRoots_def emitted_empty)
    next
      case False
      then show ?thesis
        unfolding search_code_only[OF w assms(1)] Let_def
        using c(1,2) by (simp add: buildSearchResults_eq cd)
    qed
    have "length (take (max 1 (itemLimit opts)) (map (hlRow Map.empty) (?all ?X))) < max 1 (itemLimit opts)"
      using assms(3) unfolding full by simp
    then have "take (max 1 (itemLimit opts)) (map (hlRow Map.empty) (?all ?X)) =
        map (hlRow Map.empty) (?all ?X)"
      by (simp add: min_def split: if_splits)
    then have full': "fst (searchByFields env a [] opts s) = map (hlRow Map.empty) (?all ?X)"
      using full by simp
    have "set (?all (?X \<inter> D)) \<subseteq> set (?all ?X)"
      by (intro set_emitted_mono matchedRoots_mono) simp
    then have "code ` set (?all (?X \<inter> D)) \<subseteq> code ` set (?all ?X)" by blast
    moreover have "set (map code (fst (searchByFields env a b opts s))) \<subseteq> code ` set (?all (?X \<inter> D))"
    proof -
      have "set (take (max 1 (itemLimit opts)) (map (hlRow hl) (?all (?X \<inter> D))))
          \<subseteq> set (map (hlRow hl) (?all (?X \<inter> D)))"
        by (rule set_take_subset)
      then have "code ` set (take (max 1 (itemLimit opts)) (map (hlRow hl) (?all (?X \<inter> D))))
          \<subseteq> code ` set (map (hlRow hl) (?all (?X \<inter> D)))"
        by (rule image_mono)
      also have "\<dots> = code ` set (?all (?X \<inter> D))"
        by (simp add: image_image)
      finally show ?thesis unfolding both by simp
    qed
    ultimately show ?thesis unfolding full' by (auto simp: image_image)
  qed
qed

lemma no_duplicates_limits:
  assumes "stateOK s"
  shows "distinct (map code (fst (searchByFields env a b opts s)))"
proof (cases "hasWindow env")
  case False
  then show ?thesis by (simp add: searchByFields_def)
next
  case w: True
  show ?thesis
  proof (cases "trim a \<noteq> [] \<or> trim b \<noteq> []")
    case False
    then have "fst (searchByFields env a b opts s) =
        take (min (itemLimit opts) MAX_ALL_DATA_LIMIT) (fst (ensureAllDataCache env s))"
      using w by (simp add: searchByFields_def searchBody_def getAllData_def Let_def split: prod.splits)
    then show ?thesis
      using ensureAllDataCache_ok(2)[OF assms, of env] by (simp add: distinct_take_map)
  next
    case True
    from search_shape[OF w True, of opts s] show ?thesis
    proof
      assume "fst (searchByFields env a b opts s) = []"
      then show ?thesis by simp
    next
      assume "\<exists>codes hl s2. allDataCache s2 = allDataCache (snd (ensureAllDataCache env s)) \<and>
         fst (searchByFields env a b opts s) = buildSearchResults codes hl (itemLimit opts) s2"
      then obtain codes hl s2 where s2:
        "allDataCache s2 = allDataCache (snd (ensureAllDataCache env s))"
        "fst (searchByFields env a b opts s) = buildSearchResults codes hl (itemLimit opts) s2"
        by blast
      show ?thesis
      proof (cases "allDataCache s2")
        case None
        then show ?thesis by (simp add: s2(2) buildSearchResults_eq)
      next
        case (Some c)
        then have "cacheOK c"
          using ensureAllDataCache_ok(1)[OF assms, of env] s2(1) by (simp add: stateOK_def)
        from cacheOK_distinct(2)[OF this, of "matchedRoots c codes"]
        have "distinct (map code (map (hlRow hl) (emitted c (matchedRoots c codes) (rootOrder c))))"
          by (simp add: comp_def)
        then show ?thesis
          unfolding s2(2) buildSearchResults_eq Some option.case by (rule distinct_take_map)
      qed
    qed
  qed
qed


section \<open>The claims\<close>

text \<open>
  C1 (as amended). For every list of records with pairwise distinct identifiers
  (and, where \<open>parentId\<close> is the hierarchy rule, parent references that hold no
  cycle), \<open>buildTreeFromList\<close> returns a forest; the identifiers met by flattening
  the roots through \<open>subRows\<close> are exactly the identifiers of the input, each once;
  every node of the forest is an input record, and the rows of its \<open>subRows\<close> are
  exactly the input records whose parent resolves to it: under the code-prefix rule
  those whose longest proper prefix in the input is the node's code, under the
  \<open>parentId\<close> rule those whose \<open>parentId\<close> is the node's \<open>id\<close>.
\<close>

theorem buildTreeFromList_tree_invariant:
  "(distinct (map code list) \<longrightarrow>
      (\<exists>forest. buildTreeFromList list = Some forest \<and>
         mset (flattenForest forest) = mset (map code list) \<and>
         (\<forall>u\<in>set (forestNodes forest).
            row u \<in> set list \<and>
            mset (map row (children u)) =
              mset (filter (\<lambda>r. findParentCode (code r) (set (map code list)) = Some (code (row u)))
                     list)))) \<and>
   (distinct (map recId idList) \<and> idRanked rank idList \<longrightarrow>
      (\<exists>forest. buildTreeFromIdList idList = Some forest \<and>
         mset (flattenIdForest forest) = mset (map recId idList) \<and>
         (\<forall>u\<in>set (idForestNodes forest).
            idRow u \<in> set idList \<and>
            mset (map idRow (idChildren u)) =
              mset (filter (\<lambda>r. parentId r = Some (recId (idRow u))) idList))))"
  using buildTreeFromList_by_prefix[of list] buildTreeFromIdList_ok[of idList rank]
  by blast

theorem buildTreeFromList_tree_invariant_witness:
  "distinct (map code exampleRows) \<and>
   (\<exists>forest. buildTreeFromList exampleRows = Some forest \<and>
      mset (flattenForest forest) = mset (map code exampleRows)) \<and>
   distinct (map recId chainRows) \<and> idRanked nat chainRows \<and>
   (\<exists>forest. buildTreeFromIdList chainRows = Some forest \<and>
      mset (flattenIdForest forest) = mset (map recId chainRows))"
proof -
  have h: "distinct (map code exampleRows)"
    by (simp add: exampleRows_def plainRow_def)
  have d: "distinct (map recId chainRows)" by (simp add: chainRows_def)
  have r: "idRanked nat chainRows"
    by (auto simp: idRanked_def chainRows_def idParent_def)
  from buildTreeFromList_tree_invariant[of exampleRows chainRows nat] h d r
  show ?thesis by blast
qed

text \<open>
  C1 as stated fails on a list that repeats a code: both rows name the one object
  kept under the code, which is pushed to \<open>roots\<close> twice. Under the \<open>parentId\<close> rule
  it fails also on two rows that name each other as parent: neither is a root, and
  the forest is empty.
\<close>

theorem buildTreeFromList_duplicate_codes:
  "map_option flattenForest
     (buildTreeFromList [plainRow ''01'' ''Kafshe'', plainRow ''01'' ''Kuaj'']) =
   Some [''01'', ''01''] \<and>
   map_option flattenIdForest (buildTreeFromIdList cyclicRows) = Some []"
  by code_simp

text \<open>
  C2 (as amended). For a code prefix and a text query that are both non-empty after
  trimming, on the same service state: where \<open>searchByFields\<close> takes limits, if the
  search by code prefix alone returns fewer than \<open>itemLimit\<close> rows (it was not cut),
  every code returned by the combined search is a code returned by the search by code
  prefix alone; where \<open>searchByFields\<close> answers from the table, the same inclusion
  holds if the trimmed prefix is itself the code of a stored record.
\<close>

theorem searchByFields_combined_subset:
  assumes "trim a \<noteq> []" "trim b \<noteq> []"
  shows "(length (fst (searchByFields env a [] opts s)) < itemLimit opts \<longrightarrow>
            set (map code (fst (searchByFields env a b opts s))) \<subseteq>
            set (map code (fst (searchByFields env a [] opts s)))) \<and>
         (trim a \<in> set (map code (customs s)) \<longrightarrow>
            set (map code (fst (searchByFieldsMini env a b s))) \<subseteq>
            set (map code (fst (searchByFieldsMini env a [] s))))"
  using combined_subset_limits[OF assms, of env opts s] searchMini_combined_subset[OF assms, of s env]
  by blast

theorem searchByFields_combined_subset_witness:
  "trim ''01'' \<noteq> [] \<and> trim ''Kuaj'' \<noteq> [] \<and>
   length (fst (searchByFields sampleEnv ''01'' [] defaultOptions (sampleState exampleRows)))
     < itemLimit defaultOptions \<and>
   set (map code (fst (searchByFields sampleEnv ''01'' ''Kuaj'' defaultOptions (sampleState exampleRows))))
     \<subseteq> set (map code (fst (searchByFields sampleEnv ''01'' [] defaultOptions (sampleState exampleRows)))) \<and>
   trim ''01'' \<in> set (map code (customs (sampleState exampleRows))) \<and>
   set (map code (fst (searchByFieldsMini sampleEnv ''01'' ''Kuaj'' (sampleState exampleRows))))
     \<subseteq> set (map code (fst (searchByFieldsMini sampleEnv ''01'' [] (sampleState exampleRows))))"
proof -
  have h1: "trim ''01'' \<noteq> []" and h2: "trim ''Kuaj'' \<noteq> []"
    by (simp_all add: trim_def isSpace_def)
  have h3: "length (fst (searchByFields sampleEnv ''01'' [] defaultOptions (sampleState exampleRows)))
     < itemLimit defaultOptions"
    by code_simp
  have h4: "trim ''01'' \<in> set (map code (customs (sampleState exampleRows)))"
    by (simp add: trim_def isSpace_def sampleState_def exampleRows_def plainRow_def)
  from searchByFields_combined_subset[OF h1 h2, of sampleEnv defaultOptions "sampleState exampleRows"]
    h1 h2 h3 h4
  show ?thesis by blast
qed

text \<open>
  C2 as stated fails where the limit cuts: with \<open>itemLimit = 1\<close> the search by prefix
  \<open>01\<close> alone stops after the first root, the combined search returns the root that
  holds the hit. Where the search answers from the table it fails where no record
  has the prefix as its code: the hit \<open>0101\<close> brings the direct children of its
  parent \<open>0\<close>, among them \<open>02\<close>, which the search by prefix \<open>01\<close> alone does not
  return.
\<close>

theorem searchByFields_combined_not_subset:
  "map code (fst (searchByFields sampleEnv ''01'' ''gjalle'' \<lparr>parentLimit = 200, itemLimit = 1\<rparr>
                    (sampleState twoRoots))) = [''012''] \<and>
   map code (fst (searchByFields sampleEnv ''01'' [] \<lparr>parentLimit = 200, itemLimit = 1\<rparr>
                    (sampleState twoRoots))) = [''011''] \<and>
   map code (fst (searchByFieldsMini sampleEnv ''01'' ''gjalle'' (sampleState orphanRows))) =
     [''0'', ''0101'', ''02''] \<and>
   map code (fst (searchByFieldsMini sampleEnv ''01'' [] (sampleState orphanRows))) =
     [''0'', ''0101'']"
  by code_simp

text \<open>
  C3 (as amended). For two lists that are permutations of each other and whose codes
  are pairwise distinct, \<open>buildTreeFromList\<close> leaves the same object graph and returns
  the same forest, node for node and in the same order at every level.
\<close>

theorem buildTreeFromList_order_independent:
  assumes "distinct (map code list)" "mset list' = mset list"
  shows "buildGraph list' = buildGraph list \<and>
         buildTreeFromList list' = buildTreeFromList list \<and>
         buildTreeFromList list \<noteq> None"
proof -
  have g: "buildGraph list' = buildGraph list"
    unfolding buildGraph_eq
    by (simp add: graphOf_def rowAt_perm[OF assms] kidCodes_perm[OF assms(2)] fun_eq_iff)
  have "length list' = length list" using assms(2) by (rule mset_eq_length)
  then have "buildTreeFromList list' = buildTreeFromList list"
    by (simp add: buildTreeFromList_def g)
  then show ?thesis using g buildTree_ok[OF assms(1)] by auto
qed

theorem buildTreeFromList_order_independent_witness:
  "distinct (map code exampleRows) \<and> mset (rev exampleRows) = mset exampleRows \<and>
   buildGraph (rev exampleRows) = buildGraph exampleRows \<and>
   buildTreeFromList (rev exampleRows) = buildTreeFromList exampleRows \<and>
   buildTreeFromList exampleRows \<noteq> None"
proof -
  have h: "distinct (map code exampleRows)"
    by (simp add: exampleRows_def plainRow_def)
  have p: "mset (rev exampleRows) = mset exampleRows" by simp
  from buildTreeFromList_order_independent[OF h p] h p show ?thesis by blast
qed

text \<open>
  C3 as stated fails on a list that repeats a code: the object kept under the code
  carries the row that came last.
\<close>

theorem buildTreeFromList_order_dependent:
  "buildTreeFromList [plainRow ''01'' ''Kafshe'', plainRow ''01'' ''Kuaj''] \<noteq>
   buildTreeFromList [plainRow ''01'' ''Kuaj'', plainRow ''01'' ''Kafshe'']"
  by code_simp

















text \<open>
  C10. In a service whose table has unique codes and whose cache, if set, was built
  by \<open>buildCachedData\<close>, the rows returned by \<open>searchByFields\<close> have pairwise distinct
  codes, for every query and every limit: where the rows come from the buckets of
  the matched roots, and where they come from the subtrees of the hits, collected
  under their codes.
\<close>

theorem searchByFields_no_duplicates:
  assumes "stateOK s"
  shows "distinct (map code (fst (searchByFields env a b opts s))) \<and>
         distinct (map code (fst (searchByFieldsMini env a b s)))"
proof -
  from assms have "distinct (map code (customs s))" by (simp add: stateOK_def)
  from no_duplicates_limits[OF assms, of env a b opts] searchByFieldsMini_distinct[OF this, of env a b]
  show ?thesis by simp
qed

theorem searchByFields_no_duplicates_witness:
  "stateOK (sampleState exampleRows) \<and>
   distinct (map code (fst (searchByFields sampleEnv ''01'' ''Kuaj'' defaultOptions
                              (sampleState exampleRows)))) \<and>
   distinct (map code (fst (searchByFieldsMini sampleEnv ''01'' ''Kuaj'' (sampleState exampleRows))))"
proof -
  have h: "stateOK (sampleState exampleRows)"
    by (simp add: stateOK_def sampleState_def exampleRows_def plainRow_def)
  from searchByFields_no_duplicates[OF h] h show ?thesis by blast
qed

end
